theory Spec2Isabelle
  imports Main "HOL-Library.Sublist"
begin

section \<open>Go library functions used by the two commands\<close>

text \<open>
  Go strings are byte sequences; they are modelled as \<open>string\<close> (a list of 8-bit
  characters).  \<open>int\<close> is Go's 64-bit \<open>int\<close>; the only place where its range matters
  is \<open>strconv.Atoi\<close>, whose range error is written out.
\<close>

definition newline :: char where
  "newline = CHR 0x0A"

definition is_digit :: "char \<Rightarrow> bool" where
  \<comment> \<open>the regexp class \<open>[0-9]\<close>\<close>
  "is_digit c = (c \<in> set ''0123456789'')"

definition is_letter :: "char \<Rightarrow> bool" where
  \<comment> \<open>the regexp class \<open>[A-Za-z]\<close>\<close>
  "is_letter c = (c \<in> set ''ABCDEFGHIJKLMNOPQRSTUVWXYZabcdefghijklmnopqrstuvwxyz'')"

definition upper_char :: "char \<Rightarrow> char" where
  "upper_char c =
     (case map_of (zip ''abcdefghijklmnopqrstuvwxyz'' ''ABCDEFGHIJKLMNOPQRSTUVWXYZ'') c of
        Some u \<Rightarrow> u
      | None \<Rightarrow> c)"

definition ToUpper :: "string \<Rightarrow> string" where
  \<comment> \<open>\<open>strings.ToUpper\<close> on ASCII text (the rewriter applies it to a match of \<open>[A-Za-z]+\<close> only)\<close>
  "ToUpper s = map upper_char s"

text \<open>
  The verb \<open>%q\<close> is \<open>strconv.Quote\<close>: the text between double quotes, with a backslash
  before a double quote and before a backslash, the printable ASCII characters (\<open>0x20\<close> to
  \<open>0x7E\<close>) as they are, the control characters bell, backspace, form feed, line feed,
  carriage return, tab and vertical tab as a backslash and the letter \<open>a\<close>, \<open>b\<close>,
  \<open>f\<close>, \<open>n\<close>, \<open>r\<close>, \<open>t\<close>, \<open>v\<close>, and the other ASCII bytes as a backslash, \<open>x\<close>
  and two lower-case hexadecimal digits.  A byte from \<open>0x80\<close> on is copied, which is what
  Go does to the UTF-8 encoding of a printable character (an unprintable character beyond
  ASCII and a byte outside any UTF-8 sequence, which Go escapes, are not told apart here).
\<close>

definition quote_char :: "char \<Rightarrow> string" where
  "quote_char c =
     (if c = CHR 0x22 \<or> c = CHR 0x5C then [CHR 0x5C, c]
      else if (0x20::nat) \<le> of_char c \<and> of_char c \<noteq> (0x7F::nat) then [c]
      else case map_of (zip [CHR 0x07, CHR 0x08, CHR 0x0C, CHR 0x0A, CHR 0x0D, CHR 0x09, CHR 0x0B]
                            ''abfnrtv'') c of
        Some e \<Rightarrow> [CHR 0x5C, e]
      | None \<Rightarrow>
          [CHR 0x5C, CHR ''x'', ''0123456789abcdef'' ! (of_char c div 16),
           ''0123456789abcdef'' ! (of_char c mod 16)])"

definition quote :: "string \<Rightarrow> string" where
  "quote s = CHR 0x22 # concat (map quote_char s) @ [CHR 0x22]"

text \<open>
  \<open>filepath.Clean\<close> and \<open>filepath.Join\<close> on a Unix system (the separator is \<open>/\<close>).
  \<open>Clean\<close> reads the path as elements between separators: an empty element and \<open>.\<close>
  are dropped; \<open>..\<close> removes the element before it, is dropped at the root of a rooted
  path, and is kept at the start of a path that is not rooted.  The cleaned path of no
  element is \<open>/\<close> when rooted and \<open>.\<close> otherwise.  \<open>Join\<close> cleans the non-empty
  arguments joined by the separator, from the first non-empty one on; of two empty
  arguments it makes the empty path.
\<close>

fun split_path :: "string \<Rightarrow> string list" where
  \<comment> \<open>the elements between the separators\<close>
  "split_path [] = [[]]"
| "split_path (c # cs) =
     (if c = CHR ''/'' then [] # split_path cs
      else case split_path cs of
        [] \<Rightarrow> [[c]]
      | e # es \<Rightarrow> (c # e) # es)"

fun clean_elements :: "bool \<Rightarrow> string list \<Rightarrow> string list \<Rightarrow> string list" where
  \<comment> \<open>\<open>kept\<close> holds the elements written so far, the last one first\<close>
  "clean_elements rooted kept [] = rev kept"
| "clean_elements rooted kept (e # es) =
     (if e = [] \<or> e = ''.'' then clean_elements rooted kept es
      else if e = ''..''
      then (case kept of
              [] \<Rightarrow> clean_elements rooted (if rooted then [] else [''..'']) es
            | k # ks \<Rightarrow>
                if k = ''..'' then clean_elements rooted (e # kept) es
                else clean_elements rooted ks es)
      else clean_elements rooted (e # kept) es)"

fun join_path :: "string list \<Rightarrow> string" where
  "join_path [] = []"
| "join_path [e] = e"
| "join_path (e # es) = e @ CHR ''/'' # join_path es"

definition filepath_Clean :: "string \<Rightarrow> string" where
  "filepath_Clean path =
     (if path = [] then ''.''
      else (let rooted = (hd path = CHR ''/'');
                body = join_path (clean_elements rooted [] (split_path path))
            in if rooted then CHR ''/'' # body
               else if body = [] then ''.'' else body))"

definition filepath_Join :: "string \<Rightarrow> string \<Rightarrow> string" where
  "filepath_Join a b =
     (if a \<noteq> [] then filepath_Clean (a @ ''/'' @ b)
      else if b \<noteq> [] then filepath_Clean b
      else [])"

fun nat_digits :: "nat \<Rightarrow> string" where
  "nat_digits n =
     (if n < 10 then [''0123456789'' ! n]
      else nat_digits (n div 10) @ [''0123456789'' ! (n mod 10)])"

declare nat_digits.simps [simp del]

definition itoa :: "int \<Rightarrow> string" where
  \<comment> \<open>the verb \<open>%d\<close>\<close>
  "itoa i = (if i < 0 then CHR ''-'' # nat_digits (nat (- i)) else nat_digits (nat i))"

definition digit_val :: "char \<Rightarrow> int" where
  "digit_val c = of_char c - 48"

definition decimal_value :: "string \<Rightarrow> int" where
  "decimal_value s = foldl (\<lambda>acc c. 10 * acc + digit_val c) 0 s"

definition maxInt :: int where
  "maxInt = 9223372036854775807"

definition Atoi :: "string \<Rightarrow> string + int" where
  \<comment> \<open>\<open>strconv.Atoi\<close>: an optional sign, then decimal digits; \<open>Inl\<close> is the text of the
      \<open>*NumError\<close> it returns\<close>
  "Atoi s =
     (let neg = (case s of [] \<Rightarrow> False | c # _ \<Rightarrow> c = CHR ''-'');
          ds = (case s of [] \<Rightarrow> [] | c # r \<Rightarrow> if c = CHR ''-'' \<or> c = CHR ''+'' then r else s)
      in if ds = [] \<or> \<not> list_all is_digit ds
         then Inl (''strconv.Atoi: parsing '' @ quote s @ '': invalid syntax'')
         else if decimal_value ds \<le> (if neg then maxInt + 1 else maxInt)
         then Inr (if neg then - decimal_value ds else decimal_value ds)
         else Inl (''strconv.Atoi: parsing '' @ quote s @ '': value out of range''))"

fun Contains :: "string \<Rightarrow> string \<Rightarrow> bool" where
  \<comment> \<open>\<open>strings.Contains s substr\<close>\<close>
  "Contains [] substr = (substr = [])"
| "Contains (c # cs) substr = (prefix substr (c # cs) \<or> Contains cs substr)"

function ReplaceAll :: "string \<Rightarrow> string \<Rightarrow> string \<Rightarrow> string" where
  \<comment> \<open>\<open>strings.ReplaceAll s old new\<close>: the non-overlapping occurrences of \<open>old\<close>, found from
      left to right, become \<open>new\<close>.  An empty \<open>old\<close> matches before every byte and at the end
      (Go: before every UTF-8 sequence; the same on ASCII text).\<close>
  "ReplaceAll s old new =
     (if old = [] then new @ concat (map (\<lambda>c. c # new) s)
      else if s = [] then []
      else if prefix old s then new @ ReplaceAll (drop (length old) s) old new
      else hd s # ReplaceAll (tl s) old new)"
  by pat_completeness auto
termination
  by (relation "measure (\<lambda>(s, old, new). length s)") auto

declare ReplaceAll.simps [simp del]

section \<open>The URL rewriter (first \<open>package main\<close>)\<close>

record pair =
  ChainID :: string
  RewardType :: string

record DirEntry =
  Name :: string
  IsDir :: bool

record rw_flags =
  valuesPath :: string
  cycleDir :: string
  rawPrefix :: string

datatype fs_op =
    WriteFile string string
  | MkdirAll string
  | Create string
  | Copy string string
  | Rename string string

record run_result =
  exit_code :: int
  stdout :: string
  stderr :: string
  file_ops :: "fs_op list"

text \<open>
  What one run of the rewriter observes of the outside world: the result of
  \<open>os.ReadDir\<close> on the cycle directory (entries sorted by filename, or the error's text),
  the result of \<open>os.ReadFile\<close> on the values file, the error of \<open>os.WriteFile\<close> if it
  fails, and the order in which \<open>for p := range pairs\<close> visits the keys of the map (Go
  leaves it unspecified; it is an enumeration of the keys).
\<close>

record rw_world =
  ReadDir :: "string + DirEntry list"
  ReadFile :: "string + string"
  WriteFile_err :: "string option"
  range_order :: "pair list \<Rightarrow> pair list"

definition die :: "string \<Rightarrow> run_result" where
  \<comment> \<open>\<open>fmt.Fprintln(os.Stderr, "ERROR:", err); os.Exit(1)\<close>\<close>
  "die err = \<lparr>exit_code = 1, stdout = [], stderr = ''ERROR: '' @ err @ [newline], file_ops = []\<rparr>"

definition FindStringSubmatch :: "string \<Rightarrow> (string \<times> string \<times> string) option" where
  \<comment> \<open>the groups of \<open>^([0-9]+)_([A-Za-z]+)_([0-9]+)\.json$\<close> on \<open>name\<close>; \<open>None\<close> when
      there is no match (\<open>len(m) == 0\<close>)\<close>
  "FindStringSubmatch name =
     (let m1 = takeWhile is_digit name; r1 = dropWhile is_digit name in
      if m1 = [] then None
      else case r1 of
        [] \<Rightarrow> None
      | u1 # t1 \<Rightarrow>
          if u1 \<noteq> CHR ''_'' then None
          else
            (let m2 = takeWhile is_letter t1; r2 = dropWhile is_letter t1 in
             if m2 = [] then None
             else case r2 of
               [] \<Rightarrow> None
             | u2 # t2 \<Rightarrow>
                 if u2 \<noteq> CHR ''_'' then None
                 else
                   (let m3 = takeWhile is_digit t2; r3 = dropWhile is_digit t2 in
                    if m3 \<noteq> [] \<and> r3 = ''.json'' then Some (m1, m2, m3) else None)))"

datatype entry_result =
    Skip
  | Fatal string
  | Triple string string int

definition read_entry :: "DirEntry \<Rightarrow> entry_result" where
  \<comment> \<open>the loop body up to the parsed cycle number: \<open>Skip\<close> is \<open>continue\<close>, \<open>Fatal\<close> is
      \<open>die\<close>, \<open>Triple chainID rewardType cn\<close> the three values extracted\<close>
  "read_entry entry =
     (if IsDir entry then Skip
      else case FindStringSubmatch (Name entry) of
        None \<Rightarrow> Skip
      | Some (m1, m2, m3) \<Rightarrow>
          (case Atoi m3 of
             Inl err \<Rightarrow> Fatal (''invalid cycle in filename '' @ quote (Name entry) @ '': '' @ err)
           | Inr cn \<Rightarrow> Triple m1 (ToUpper m2) cn))"

fun scan_entries :: "string \<Rightarrow> DirEntry list \<Rightarrow> int \<times> pair list \<Rightarrow> string + int \<times> pair list" where
  \<comment> \<open>the loop over the directory entries; the state is \<open>cycleNum\<close> and the keys of the
      map \<open>pairs\<close>\<close>
  "scan_entries dir [] st = Inr st"
| "scan_entries dir (entry # entries) (cycleNum, pairs) =
     (case read_entry entry of
        Skip \<Rightarrow> scan_entries dir entries (cycleNum, pairs)
      | Fatal err \<Rightarrow> Inl err
      | Triple chainID rewardType cn \<Rightarrow>
          if cycleNum = 0
          then scan_entries dir entries
                 (cn, List.insert \<lparr>ChainID = chainID, RewardType = rewardType\<rparr> pairs)
          else if cycleNum \<noteq> cn
          then Inl (''multiple cycle numbers found in '' @ dir)
          else scan_entries dir entries
                 (cycleNum, List.insert \<lparr>ChainID = chainID, RewardType = rewardType\<rparr> pairs))"

definition cycle_url :: "string \<Rightarrow> int \<Rightarrow> pair \<Rightarrow> string" where
  \<comment> \<open>\<open>fmt.Sprintf("%s/cycle-%d/%s_%s_%d.json", rawPrefix, c, p.ChainID, p.RewardType, c)\<close>\<close>
  "cycle_url pfx c p =
     pfx @ ''/cycle-'' @ itoa c @ ''/'' @ ChainID p @ ''_'' @ RewardType p @ ''_'' @ itoa c
       @ ''.json''"

fun replace_urls :: "string \<Rightarrow> int \<Rightarrow> pair list \<Rightarrow> string \<times> bool \<Rightarrow> string \<times> bool" where
  \<comment> \<open>the replacement loop; the state is \<open>updated\<close> and \<open>changed\<close>\<close>
  "replace_urls pfx newC [] st = st"
| "replace_urls pfx newC (p # ps) (updated, changed) =
     (let prevURL = cycle_url pfx (newC - 1) p;
          newURL = cycle_url pfx newC p;
          oldURL = cycle_url pfx (newC - 2) p;
          st1 = (if Contains updated prevURL
                 then (ReplaceAll updated prevURL newURL, True)
                 else (updated, changed));
          st2 = (if Contains (fst st1) oldURL
                 then (ReplaceAll (fst st1) oldURL prevURL, True)
                 else st1)
      in replace_urls pfx newC ps st2)"

definition rewriter :: "rw_flags \<Rightarrow> rw_world \<Rightarrow> run_result" where
  "rewriter fl w =
     (if valuesPath fl = [] \<or> cycleDir fl = [] then die ''missing --values or --cycle-dir''
      else case ReadDir w of
        Inl err \<Rightarrow> die err
      | Inr entries \<Rightarrow>
          (case scan_entries (cycleDir fl) entries (0, []) of
             Inl err \<Rightarrow> die err
           | Inr (cycleNum, pairs) \<Rightarrow>
               if cycleNum = 0 \<or> length pairs = 0
               then die (''no matching merkle files found in '' @ cycleDir fl)
               else if cycleNum < 2 then die (''cycle too small: '' @ itoa cycleNum)
               else case ReadFile w of
                 Inl err \<Rightarrow> die err
               | Inr orig \<Rightarrow>
                   (let st = replace_urls (rawPrefix fl) cycleNum (range_order w pairs) (orig, False)
                    in if \<not> snd st
                       then \<lparr>exit_code = 0,
                             stdout = ''No changes made to values.yaml (nothing matched).'' @ [newline],
                             stderr = [], file_ops = []\<rparr>
                       else case WriteFile_err w of
                         Some err \<Rightarrow> (die err)\<lparr>file_ops := [WriteFile (valuesPath fl) (fst st)]\<rparr>
                       | None \<Rightarrow>
                           \<lparr>exit_code = 0,
                            stdout = ''Updated values.yaml via URL string replacement only.'' @ [newline],
                            stderr = [], file_ops = [WriteFile (valuesPath fl) (fst st)]\<rparr>)))"

section \<open>The fetcher (second \<open>package main\<close>)\<close>

text \<open>
  A Go map that is only looked up is a partial function; \<open>Chains\<close> is also ranged
  over, so both tables are lists of key and value (keys different, as in any Go map), in
  the order in which this run's \<open>range\<close> visits them, looked up with \<open>map_of\<close>.
\<close>

record Mapping =
  Chains :: "(string \<times> string) list"
  Types :: "(string \<times> string) list"

record RichText =
  PlainText :: string
  Content :: string

text \<open>
  \<open>PropertyVal.Title\<close> is a \<open>json.RawMessage\<close> that \<open>titleText\<close> decodes twice.  What
  the two \<open>json.Unmarshal\<close> calls can find: no bytes at all; a JSON object, whose fields
  \<open>title\<close> and \<open>results\<close> decode to two lists of rich text; a JSON array, which decodes
  to one list; anything else (\<open>null\<close>, a number, a string, ill-typed elements), from
  which neither call gets an element.
\<close>

datatype RawMessage =
    RawEmpty
  | RawObject "RichText list" "RichText list"
  | RawArray "RichText list"
  | RawOther

record NotionFile =
  Name :: string
  Type :: string
  File :: "string option"
  External :: "string option"

record PropertyVal =
  Type :: string
  Title :: RawMessage
  Select :: "string option"
  MultiSelect :: "string list"
  Status :: "string option"
  Files :: "NotionFile list"

record Page =
  ID :: string
  Properties :: "string \<rightharpoonup> PropertyVal"

record QueryResp =
  Results :: "Page list"
  HasMore :: bool
  NextCursor :: string

record downloadItem =
  ChainID :: string
  RewardType :: string
  PageID :: string
  SourceURL :: string

text \<open>
  One HTTP exchange of the client: the request could not be built or sent
  (\<open>RequestError\<close> with the error's text), or a response arrived, with its status code,
  its status line, its body as \<open>io.ReadAll\<close> reads it, and the result of decoding the
  body as JSON (the error's text, or the value).
\<close>

datatype 'a exchange =
    RequestError string
  | Response int string string "string + 'a"

record fetch_flags =
  databaseID :: string
  cycle :: int
  outDir :: string
  mappingPath :: string
  notionToken :: string
  notionVersion :: string
  allowExisting :: bool
  propTitle :: string
  propStatus :: string
  propChain :: string
  propType :: string
  propFile :: string
  statusDone :: string
  statusType :: string
  pageSize :: int

text \<open>
  What one run of the fetcher observes of the outside world: the mapping file (the error
  of \<open>os.ReadFile\<close>, or the result of \<open>json.Unmarshal\<close> on its bytes); the exchange
  of \<open>RetrieveDatabase\<close>, whose value is the list of data sources (\<open>ID\<close> and \<open>Name\<close>);
  whether \<open>os.Stat\<close> finds the target directory, and how many entries \<open>os.ReadDir\<close>
  lists in it; the exchanges of the successive \<open>QueryDataSource\<close> calls; the error of
  \<open>os.MkdirAll\<close>; for the downloads the exchange per URL (its value is the body), the
  errors of \<open>os.Create\<close>, \<open>io.Copy\<close> and \<open>os.Rename\<close> per path, and the size
  \<open>os.Stat\<close> reports per path (\<open>None\<close> when it fails).  \<open>Quote\<close> (the verb \<open>%q\<close>) and \<open>Join\<close>
  (\<open>filepath.Join\<close>) are library functions the model takes as they are.
\<close>

record fetch_world =
  ReadFile_mapping :: "string + (string + Mapping)"
  retrieve :: "(string \<times> string) list exchange"
  target_is_dir :: bool
  target_entries :: nat
  queries :: "QueryResp exchange list"
  MkdirAll_err :: "string option"
  get :: "string \<Rightarrow> string exchange"
  Create_err :: "string \<Rightarrow> string option"
  Copy_err :: "string \<Rightarrow> string option"
  Rename_err :: "string \<Rightarrow> string option"
  Stat_size :: "string \<Rightarrow> int option"
  Quote :: "string \<Rightarrow> string"
  Join :: "string \<Rightarrow> string \<Rightarrow> string"

definition fatal :: "string \<Rightarrow> run_result" where
  \<comment> \<open>\<open>fmt.Fprintln(os.Stderr, "ERROR:", err.Error()); os.Exit(1)\<close>\<close>
  "fatal err = \<lparr>exit_code = 1, stdout = [], stderr = ''ERROR: '' @ err @ [newline], file_ops = []\<rparr>"

definition RetrieveDatabase :: "(string \<times> string) list exchange \<Rightarrow> string + (string \<times> string) list" where
  "RetrieveDatabase x =
     (case x of
        RequestError err \<Rightarrow> Inl err
      | Response code status body decoded \<Rightarrow>
          if code div 100 \<noteq> 2
          then Inl (''retrieve database failed: '' @ status @ '': '' @ body)
          else decoded)"

definition QueryDataSource :: "QueryResp exchange \<Rightarrow> string + QueryResp" where
  "QueryDataSource x =
     (case x of
        RequestError err \<Rightarrow> Inl err
      | Response code status body decoded \<Rightarrow>
          if code div 100 \<noteq> 2
          then Inl (''query data source failed: '' @ status @ '': '' @ body)
          else decoded)"

definition joinPlainText :: "RichText list \<Rightarrow> string" where
  "joinPlainText items = concat (map PlainText (filter (\<lambda>t. PlainText t \<noteq> []) items))"

definition titleText :: "PropertyVal \<Rightarrow> string" where
  "titleText p =
     (case Title p of
        RawEmpty \<Rightarrow> []
      | RawObject title results \<Rightarrow>
          if title \<noteq> [] \<or> results \<noteq> [] then joinPlainText (title @ results) else []
      | RawArray arr \<Rightarrow> if arr \<noteq> [] then joinPlainText arr else []
      | RawOther \<Rightarrow> [])"

definition fileURL :: "(string \<Rightarrow> string) \<Rightarrow> NotionFile \<Rightarrow> string + string" where
  "fileURL q f =
     (if NotionFile.Type f = ''file'' \<and> File f \<noteq> None \<and> the (File f) \<noteq> [] then Inr (the (File f))
      else if NotionFile.Type f = ''external'' \<and> External f \<noteq> None \<and> the (External f) \<noteq> []
      then Inr (the (External f))
      else if File f \<noteq> None \<and> the (File f) \<noteq> [] then Inr (the (File f))
      else if External f \<noteq> None \<and> the (External f) \<noteq> [] then Inr (the (External f))
      else Inl (''file entry '' @ q (NotionFile.Name f) @ '' has no downloadable URL''))"

text \<open>The four checks of the loop body on one page, in the order of the source.\<close>

definition title_check :: "(string \<Rightarrow> string) \<Rightarrow> fetch_flags \<Rightarrow> Page \<Rightarrow> string + bool" where
  \<comment> \<open>\<open>Inr False\<close> is \<open>continue\<close>\<close>
  "title_check q fl page =
     (case Properties page (propTitle fl) of
        None \<Rightarrow>
          Inl (''page '' @ ID page @ '': missing/invalid title property '' @ q (propTitle fl))
      | Some titleProp \<Rightarrow>
          if PropertyVal.Type titleProp \<noteq> ''title''
          then Inl (''page '' @ ID page @ '': missing/invalid title property '' @ q (propTitle fl))
          else Inr (Contains (titleText titleProp) (''Cycle '' @ itoa (cycle fl))))"

definition chain_check :: "(string \<Rightarrow> string) \<Rightarrow> fetch_flags \<Rightarrow> Mapping \<Rightarrow> Page \<Rightarrow> string + string" where
  "chain_check q fl m page =
     (case Properties page (propChain fl) of
        None \<Rightarrow> Inl (''page '' @ ID page @ '': missing chain select '' @ q (propChain fl))
      | Some chainProp \<Rightarrow>
          if Select chainProp = None \<or> the (Select chainProp) = []
          then Inl (''page '' @ ID page @ '': missing chain select '' @ q (propChain fl))
          else case map_of (Chains m) (the (Select chainProp)) of
            None \<Rightarrow>
              Inl (''page '' @ ID page @ '': chain '' @ q (the (Select chainProp)) @
                   '' not found in mapping'')
          | Some chainID \<Rightarrow> Inr chainID)"

definition type_check :: "(string \<Rightarrow> string) \<Rightarrow> fetch_flags \<Rightarrow> Mapping \<Rightarrow> Page \<Rightarrow> string + string" where
  "type_check q fl m page =
     (case Properties page (propType fl) of
        None \<Rightarrow> Inl (''page '' @ ID page @ '': missing type multi_select '' @ q (propType fl))
      | Some typeProp \<Rightarrow>
          if PropertyVal.Type typeProp \<noteq> ''multi_select''
          then Inl (''page '' @ ID page @ '': missing type multi_select '' @ q (propType fl))
          else case MultiSelect typeProp of
            [typeName] \<Rightarrow>
              (case map_of (Types m) typeName of
                 None \<Rightarrow>
                   Inl (''page '' @ ID page @ '': type '' @ q typeName @ '' not found in mapping'')
               | Some rewardType \<Rightarrow> Inr rewardType)
          | _ \<Rightarrow>
              Inl (''page '' @ ID page @ '': expected exactly 1 Type, got '' @
                   itoa (int (length (MultiSelect typeProp)))))"

definition file_check :: "(string \<Rightarrow> string) \<Rightarrow> fetch_flags \<Rightarrow> Page \<Rightarrow> string + string" where
  "file_check q fl page =
     (case Properties page (propFile fl) of
        None \<Rightarrow> Inl (''page '' @ ID page @ '': missing files property '' @ q (propFile fl))
      | Some fileProp \<Rightarrow>
          if PropertyVal.Type fileProp \<noteq> ''files''
          then Inl (''page '' @ ID page @ '': missing files property '' @ q (propFile fl))
          else case Files fileProp of
            [f] \<Rightarrow>
              (case fileURL q f of
                 Inl err \<Rightarrow> Inl (''page '' @ ID page @ '': '' @ err)
               | Inr url \<Rightarrow> Inr url)
          | _ \<Rightarrow>
              Inl (''page '' @ ID page @ '': expected exactly 1 merkle file, got '' @
                   itoa (int (length (Files fileProp)))))"

datatype row =
    SkipRow
  | FatalRow string
  | Row string string string

definition read_page :: "(string \<Rightarrow> string) \<Rightarrow> fetch_flags \<Rightarrow> Mapping \<Rightarrow> Page \<Rightarrow> row" where
  \<comment> \<open>the loop body up to the resolved URL: \<open>SkipRow\<close> is \<open>continue\<close>, \<open>FatalRow\<close> is
      \<open>fatal\<close>, \<open>Row chainID rewardType url\<close> the validated row\<close>
  "read_page q fl m page =
     (case title_check q fl page of
        Inl err \<Rightarrow> FatalRow err
      | Inr has_label \<Rightarrow>
          if \<not> has_label then SkipRow
          else case chain_check q fl m page of
            Inl err \<Rightarrow> FatalRow err
          | Inr chainID \<Rightarrow>
              (case type_check q fl m page of
                 Inl err \<Rightarrow> FatalRow err
               | Inr rewardType \<Rightarrow>
                   (case file_check q fl page of
                      Inl err \<Rightarrow> FatalRow err
                    | Inr url \<Rightarrow> Row chainID rewardType url)))"

record fetch_state =
  seen :: "string list"
  seenChains :: "string list"
  items :: "downloadItem list"

definition process_page ::
  "(string \<Rightarrow> string) \<Rightarrow> fetch_flags \<Rightarrow> Mapping \<Rightarrow> Page \<Rightarrow> fetch_state \<Rightarrow> string + fetch_state" where
  \<comment> \<open>the whole loop body; \<open>seen\<close> and \<open>seenChains\<close> are the keys of the two maps\<close>
  "process_page q fl m page st =
     (case read_page q fl m page of
        SkipRow \<Rightarrow> Inr st
      | FatalRow err \<Rightarrow> Inl err
      | Row chainID rewardType url \<Rightarrow>
          if chainID @ '':'' @ rewardType \<in> set (seen st)
          then Inl (''page '' @ ID page @ '': duplicate chain/type '' @ chainID @ '':'' @ rewardType)
          else Inr \<lparr>seen = List.insert (chainID @ '':'' @ rewardType) (seen st),
                    seenChains = List.insert chainID (seenChains st),
                    items = items st @
                      [\<lparr>ChainID = chainID, RewardType = rewardType, PageID = ID page,
                        SourceURL = url\<rparr>]\<rparr>)"

fun process_pages ::
  "(string \<Rightarrow> string) \<Rightarrow> fetch_flags \<Rightarrow> Mapping \<Rightarrow> Page list \<Rightarrow> fetch_state \<Rightarrow> string + fetch_state" where
  "process_pages q fl m [] st = Inr st"
| "process_pages q fl m (page # pages) st =
     (case process_page q fl m page st of
        Inl err \<Rightarrow> Inl err
      | Inr st' \<Rightarrow> process_pages q fl m pages st')"

text \<open>
  The query loop, over the exchanges of the successive calls.  It ends with a fatal
  error or when a reply announces no further page; \<open>None\<close> says that the listed exchanges
  ran out while the last reply still announced more, so that the enumeration has not
  ended.
\<close>

fun query_loop ::
  "(string \<Rightarrow> string) \<Rightarrow> fetch_flags \<Rightarrow> Mapping \<Rightarrow> QueryResp exchange list \<Rightarrow> fetch_state \<Rightarrow>
     (string + fetch_state) option" where
  "query_loop q fl m [] st = None"
| "query_loop q fl m (x # xs) st =
     (case QueryDataSource x of
        Inl err \<Rightarrow> Some (Inl err)
      | Inr qr \<Rightarrow>
          (case process_pages q fl m (Results qr) st of
             Inl err \<Rightarrow> Some (Inl err)
           | Inr st' \<Rightarrow>
               if \<not> HasMore qr \<or> NextCursor qr = [] then Some (Inr st')
               else query_loop q fl m xs st'))"

definition downloadToFile :: "fetch_world \<Rightarrow> string \<Rightarrow> string \<Rightarrow> fs_op list \<times> string option" where
  \<comment> \<open>the file operations done, and the error returned\<close>
  "downloadToFile w urlStr outPath =
     (case get w urlStr of
        RequestError err \<Rightarrow> ([], Some err)
      | Response code status body decoded \<Rightarrow>
          if code div 100 \<noteq> 2
          then ([], Some (''download failed: '' @ status @ '': '' @ body))
          else case Create_err w (outPath @ ''.tmp'') of
            Some err \<Rightarrow> ([], Some err)
          | None \<Rightarrow>
              (case Copy_err w (outPath @ ''.tmp'') of
                 Some err \<Rightarrow> ([Create (outPath @ ''.tmp'')], Some err)
               | None \<Rightarrow>
                   ([Create (outPath @ ''.tmp''), Copy (outPath @ ''.tmp'') body,
                     Rename (outPath @ ''.tmp'') outPath],
                    Rename_err w (outPath @ ''.tmp''))))"

fun download_items ::
  "fetch_flags \<Rightarrow> fetch_world \<Rightarrow> string \<Rightarrow> downloadItem list \<Rightarrow> fs_op list \<times> string option" where
  \<comment> \<open>the download loop: the file operations done, and the message of \<open>fatal\<close> if it is
      called\<close>
  "download_items fl w targetDir [] = ([], None)"
| "download_items fl w targetDir (item # rest) =
     (let outName = ChainID item @ ''_'' @ RewardType item @ ''_'' @ itoa (cycle fl) @ ''.json'';
          outPath = Join w targetDir outName;
          d = downloadToFile w (SourceURL item) outPath
      in case snd d of
        Some err \<Rightarrow> (fst d, Some (''download '' @ outName @ '': '' @ err))
      | None \<Rightarrow>
          if Stat_size w outPath = None \<or> Stat_size w outPath = Some 0
          then (fst d, Some (''downloaded file is empty: '' @ outPath))
          else (let r = download_items fl w targetDir rest in (fst d @ fst r, snd r)))"

definition after_enumeration :: "fetch_flags \<Rightarrow> fetch_world \<Rightarrow> Mapping \<Rightarrow> fetch_state \<Rightarrow> run_result" where
  \<comment> \<open>\<open>main\<close> from the end of the query loop on\<close>
  "after_enumeration fl w m st =
     (let cycleStr = ''Cycle '' @ itoa (cycle fl);
          targetDir = Join w (outDir fl) (''cycle-'' @ itoa (cycle fl))
      in if length (items st) = 0
         then fatal (''no matching Notion rows found for '' @ cycleStr)
         else case find (\<lambda>(name, cid). cid \<notin> set (seenChains st)) (Chains m) of
           Some (name, cid) \<Rightarrow>
             fatal (''no merkle files found for chain '' @ Quote w name @ '' (id '' @ cid @
                    '') in '' @ cycleStr)
         | None \<Rightarrow>
             (case MkdirAll_err w of
                Some err \<Rightarrow> (fatal err)\<lparr>file_ops := [MkdirAll targetDir]\<rparr>
              | None \<Rightarrow>
                  (let d = download_items fl w targetDir (items st) in
                   case snd d of
                     Some err \<Rightarrow> (fatal err)\<lparr>file_ops := MkdirAll targetDir # fst d\<rparr>
                   | None \<Rightarrow>
                       \<lparr>exit_code = 0,
                        stdout = ''Downloaded '' @ itoa (int (length (items st))) @
                          '' files into '' @ targetDir @ [newline],
                        stderr = [], file_ops = MkdirAll targetDir # fst d\<rparr>)))"

definition fetcher :: "fetch_flags \<Rightarrow> fetch_world \<Rightarrow> run_result option" where
  "fetcher fl w =
     (if databaseID fl = [] \<or> cycle fl = 0
      then Some (fatal ''missing --database-id or --cycle'')
      else if notionToken fl = []
      then Some (fatal ''missing Notion token (set NOTION_TOKEN or --notion-token)'')
      else if statusType fl \<noteq> ''status'' \<and> statusType fl \<noteq> ''select''
      then Some (fatal (''invalid --status-type '' @ Quote w (statusType fl) @
                        '' (must be status or select)''))
      else case ReadFile_mapping w of
        Inl err \<Rightarrow> Some (fatal (''read mapping: '' @ err))
      | Inr (Inl err) \<Rightarrow> Some (fatal (''parse mapping json: '' @ err))
      | Inr (Inr m) \<Rightarrow>
          (case RetrieveDatabase (retrieve w) of
             Inl err \<Rightarrow> Some (fatal err)
           | Inr db \<Rightarrow>
               if length db = 0 then Some (fatal ''database has no data_sources'')
               else if target_is_dir w \<and> target_entries w > 0 \<and> \<not> allowExisting fl
               then Some (fatal (''target folder '' @
                                 Join w (outDir fl) (''cycle-'' @ itoa (cycle fl)) @
                                 '' already exists and is not empty (use --allow-existing)''))
               else case query_loop (Quote w) fl m (queries w)
                           \<lparr>seen = [], seenChains = [], items = []\<rparr> of
                 None \<Rightarrow> None
               | Some (Inl err) \<Rightarrow> Some (fatal err)
               | Some (Inr st) \<Rightarrow> Some (after_enumeration fl w m st)))"

section \<open>What the claims speak of\<close>

definition regexp_match :: "string \<Rightarrow> string \<Rightarrow> string \<Rightarrow> string \<Rightarrow> bool" where
  \<comment> \<open>\<open>name\<close> has the shape \<open>{digits}_{letters}_{digits}.json\<close> with the three groups
      \<open>m1\<close>, \<open>m2\<close>, \<open>m3\<close>: what the regular expression denotes\<close>
  "regexp_match name m1 m2 m3 =
     (m1 \<noteq> [] \<and> list_all is_digit m1 \<and> m2 \<noteq> [] \<and> list_all is_letter m2 \<and>
      m3 \<noteq> [] \<and> list_all is_digit m3 \<and>
      name = m1 @ ''_'' @ m2 @ ''_'' @ m3 @ ''.json'')"

text \<open>
  The replacement loop performs, for each pair in turn, two \<open>ReplaceAll\<close> calls.  What the
  specification describes is one pass over the text in which every occurrence of a
  previous-cycle URL becomes the new-cycle URL and every occurrence of an old-cycle URL
  becomes the previous-cycle URL.  \<open>url_rules\<close> lists these replacements in the order of
  the loop; \<open>substitute_once\<close> is the single pass: at each position, the first rule whose
  left side starts there is applied and the scan resumes behind the replaced text, so
  nothing that a rule has written is read again.
\<close>

definition url_rules :: "string \<Rightarrow> int \<Rightarrow> pair list \<Rightarrow> (string \<times> string) list" where
  "url_rules pfx newC ps =
     concat (map (\<lambda>p. [(cycle_url pfx (newC - 1) p, cycle_url pfx newC p),
                        (cycle_url pfx (newC - 2) p, cycle_url pfx (newC - 1) p)]) ps)"

function substitute_once :: "(string \<times> string) list \<Rightarrow> string \<Rightarrow> string" where
  "substitute_once R s =
     (if s = [] then []
      else case find (\<lambda>(l, r). l \<noteq> [] \<and> prefix l s) R of
        Some (l, r) \<Rightarrow> r @ substitute_once R (drop (length l) s)
      | None \<Rightarrow> hd s # substitute_once R (tl s))"
  by pat_completeness auto
termination
  by (relation "measure (\<lambda>(R, s). length s)") (auto simp: find_Some_iff)

declare substitute_once.simps [simp del]

text \<open>
  The URLs a run generates: for every pair the old-cycle, the previous-cycle and the
  new-cycle URL.  The family is \<^emph>\<open>clean\<close> when its members are pairwise different and no
  member overlaps a member: none is a proper prefix of another, and no proper non-empty
  suffix of one is a prefix of, or has as a prefix, a member.
\<close>

definition url_family :: "string \<Rightarrow> int \<Rightarrow> pair list \<Rightarrow> string list" where
  "url_family pfx newC ps =
     concat (map (\<lambda>p. [cycle_url pfx (newC - 2) p, cycle_url pfx (newC - 1) p,
                        cycle_url pfx newC p]) ps)"

fun tails :: "string \<Rightarrow> string list" where
  \<comment> \<open>the non-empty suffixes\<close>
  "tails [] = []"
| "tails (c # cs) = (c # cs) # tails cs"

definition no_overlap :: "string \<Rightarrow> string \<Rightarrow> bool" where
  "no_overlap u v =
     ((prefix u v \<longrightarrow> u = v) \<and>
      list_all (\<lambda>w. \<not> prefix w v \<and> \<not> prefix v w) (tails (tl u)))"

definition overlap_free :: "string list \<Rightarrow> bool" where
  "overlap_free us = list_all (\<lambda>u. u \<noteq> [] \<and> list_all (no_overlap u) us) us"

definition clean_urls :: "string \<Rightarrow> int \<Rightarrow> pair list \<Rightarrow> bool" where
  "clean_urls pfx newC ps =
     (distinct (url_family pfx newC ps) \<and> overlap_free (url_family pfx newC ps))"

text \<open>
  A text seen as stretches free of generated URLs with occurrences of previous-cycle and
  old-cycle URLs between them: \<open>weave (url_before pfx N) s0 [(o1, s1), ..., (on, sn)]\<close> is
  \<open>s0 @ u1 @ s1 @ ... @ un @ sn\<close>, and \<open>weave (url_after pfx N)\<close> the same text with every
  occurrence moved one cycle on.
\<close>

datatype occurrence = Prev pair | Old pair

fun occ_pair :: "occurrence \<Rightarrow> pair" where
  "occ_pair (Prev p) = p"
| "occ_pair (Old p) = p"

fun url_before :: "string \<Rightarrow> int \<Rightarrow> occurrence \<Rightarrow> string" where
  "url_before pfx newC (Prev p) = cycle_url pfx (newC - 1) p"
| "url_before pfx newC (Old p) = cycle_url pfx (newC - 2) p"

fun url_after :: "string \<Rightarrow> int \<Rightarrow> occurrence \<Rightarrow> string" where
  "url_after pfx newC (Prev p) = cycle_url pfx newC p"
| "url_after pfx newC (Old p) = cycle_url pfx (newC - 1) p"

fun weave :: "(occurrence \<Rightarrow> string) \<Rightarrow> string \<Rightarrow> (occurrence \<times> string) list \<Rightarrow> string" where
  "weave f s0 [] = s0"
| "weave f s0 ((oc, s) # segs) = s0 @ f oc @ weave f s segs"

definition url_free :: "string \<Rightarrow> int \<Rightarrow> pair list \<Rightarrow> string \<Rightarrow> bool" where
  \<comment> \<open>no previous-cycle and no old-cycle URL of a pair occurs in \<open>s\<close>\<close>
  "url_free pfx newC ps s =
     list_all (\<lambda>p. \<not> Contains s (cycle_url pfx (newC - 1) p) \<and>
                   \<not> Contains s (cycle_url pfx (newC - 2) p)) ps"

text \<open>
  For the fetcher: the two URLs a file entry can carry (an empty URL counts as none), the
  pair of an item, the state before the first row, and the invariant of the query loop
  (\<open>seen\<close> holds the keys of the items, \<open>seenChains\<close> their chains, and no key is
  there twice).
\<close>

definition internal_url :: "NotionFile \<Rightarrow> string option" where
  "internal_url f = (case File f of None \<Rightarrow> None | Some u \<Rightarrow> if u = [] then None else Some u)"

definition external_url :: "NotionFile \<Rightarrow> string option" where
  "external_url f = (case External f of None \<Rightarrow> None | Some u \<Rightarrow> if u = [] then None else Some u)"


definition no_rows :: fetch_state where
  "no_rows = \<lparr>seen = [], seenChains = [], items = []\<rparr>"

definition consistent :: "fetch_state \<Rightarrow> bool" where
  "consistent st =
     (set (seen st) = (\<lambda>it. downloadItem.ChainID it @ '':'' @ downloadItem.RewardType it) ` set (items st) \<and>
      set (seenChains st) = downloadItem.ChainID ` set (items st) \<and>
      distinct (map (\<lambda>it. downloadItem.ChainID it @ '':'' @ downloadItem.RewardType it) (items st)))"



text \<open>
  Inputs for the examples: the fetcher's flags at their defaults for cycle 5, a mapping
  with two chains, a page as the query returns it (a title, a chain, the type \<open>EG\<close>,
  file entries), and a world in which every request succeeds and the single reply of the
  query holds the given pages; its \<open>Quote\<close> and \<open>Join\<close> are \<open>strconv.Quote\<close> and
  \<open>filepath.Join\<close>.
\<close>

definition example_flags :: fetch_flags where
  "example_flags =
     \<lparr>databaseID = ''db'', cycle = 5, outDir = ''.'', mappingPath = ''config/notion_mappings.json'',
      notionToken = ''secret'', notionVersion = ''2025-09-03'', allowExisting = False,
      propTitle = ''Task name'', propStatus = ''Status'', propChain = ''Chain'',
      propType = ''Type'', propFile = ''Merkle file'', statusDone = ''Done'',
      statusType = ''status'', pageSize = 100\<rparr>"

definition example_mapping :: Mapping where
  "example_mapping =
     \<lparr>Chains = [(''Ethereum'', ''1''), (''BSC'', ''56'')], Types = [(''EG'', ''EG'')]\<rparr>"

definition example_property :: PropertyVal where
  "example_property =
     \<lparr>PropertyVal.Type = [], Title = RawEmpty, Select = None, MultiSelect = [], Status = None,
      Files = []\<rparr>"

definition example_page :: "string \<Rightarrow> string \<Rightarrow> string \<Rightarrow> NotionFile list \<Rightarrow> Page" where
  "example_page pid title chain files =
     \<lparr>ID = pid,
      Properties =
        [''Task name'' \<mapsto> example_property
           \<lparr>PropertyVal.Type := ''title'',
            Title := RawArray [\<lparr>PlainText = title, Content = title\<rparr>]\<rparr>,
         ''Chain'' \<mapsto> example_property\<lparr>PropertyVal.Type := ''select'', Select := Some chain\<rparr>,
         ''Type'' \<mapsto> example_property\<lparr>PropertyVal.Type := ''multi_select'', MultiSelect := [''EG'']\<rparr>,
         ''Merkle file'' \<mapsto> example_property\<lparr>PropertyVal.Type := ''files'', Files := files\<rparr>]\<rparr>"

definition example_file :: "string \<Rightarrow> NotionFile" where
  "example_file url =
     \<lparr>NotionFile.Name = ''merkle.json'', Type = ''file'', File = Some url, External = None\<rparr>"

definition example_world :: "(string \<times> string) list exchange \<Rightarrow> Page list \<Rightarrow> fetch_world" where
  "example_world db pages =
     \<lparr>ReadFile_mapping = Inr (Inr example_mapping),
      retrieve = db,
      target_is_dir = False, target_entries = 0,
      queries = [Response 200 ''200 OK'' [] (Inr \<lparr>Results = pages, HasMore = False, NextCursor = []\<rparr>)],
      MkdirAll_err = None,
      get = (\<lambda>u. Response 200 ''200 OK'' ''{}'' (Inr ''{}'')),
      Create_err = (\<lambda>p. None), Copy_err = (\<lambda>p. None), Rename_err = (\<lambda>p. None),
      Stat_size = (\<lambda>p. Some 2), Quote = quote, Join = filepath_Join\<rparr>"

text \<open>
  The default of \<open>--raw-prefix\<close>; a prefix that starts with \<open>https:\<close> and has no other
  colon; and a pair as the scan of a cycle directory produces it (digits, letters).
\<close>

definition default_prefix :: string where
  "default_prefix =
     ''https://raw.githubusercontent.com/KyberNetwork/fairflow-reward/refs/heads/main''"

definition https_prefix :: "string \<Rightarrow> bool" where
  "https_prefix pfx = (take 6 pfx = ''https:'' \<and> CHR '':'' \<notin> set (drop 6 pfx))"

definition filename_pair :: "pair \<Rightarrow> bool" where
  "filename_pair p =
     (pair.ChainID p \<noteq> [] \<and> list_all is_digit (pair.ChainID p) \<and>
      pair.RewardType p \<noteq> [] \<and> list_all is_letter (pair.RewardType p))"

section \<open>Filename matching\<close>

lemma not_digit_underscore: "\<not> is_digit CHR ''_''"
  by (simp add: is_digit_def)

lemma not_letter_underscore: "\<not> is_letter CHR ''_''"
  by (simp add: is_letter_def)

lemma not_digit_dot: "\<not> is_digit CHR ''.''"
  by (simp add: is_digit_def)

lemma takeWhile_all_stop:
  "list_all P xs \<Longrightarrow> \<not> P y \<Longrightarrow> takeWhile P (xs @ y # ys) = xs"
  by (induction xs) auto

lemma dropWhile_all_stop:
  "list_all P xs \<Longrightarrow> \<not> P y \<Longrightarrow> dropWhile P (xs @ y # ys) = y # ys"
  by (induction xs) auto

lemma list_all_takeWhile: "list_all P (takeWhile P xs)"
  by (induction xs) auto

lemma FindStringSubmatch_complete:
  assumes "regexp_match name m1 m2 m3"
  shows "FindStringSubmatch name = Some (m1, m2, m3)"
  using assms
  by (simp add: regexp_match_def FindStringSubmatch_def takeWhile_all_stop dropWhile_all_stop
      not_digit_underscore not_letter_underscore not_digit_dot)

lemma FindStringSubmatch_sound:
  assumes "FindStringSubmatch name = Some (m1, m2, m3)"
  shows "regexp_match name m1 m2 m3"
proof -
  let ?r1 = "dropWhile is_digit name"
  from assms obtain t1 where r1: "?r1 = CHR ''_'' # t1"
    and m1: "m1 = takeWhile is_digit name" "m1 \<noteq> []"
    by (auto simp: FindStringSubmatch_def Let_def split: list.splits if_splits)
  let ?r2 = "dropWhile is_letter t1"
  from assms r1 obtain t2 where r2: "?r2 = CHR ''_'' # t2"
    and m2: "m2 = takeWhile is_letter t1" "m2 \<noteq> []"
    by (auto simp: FindStringSubmatch_def Let_def split: list.splits if_splits)
  from assms r1 r2 have m3: "m3 = takeWhile is_digit t2" "m3 \<noteq> []"
    and r3: "dropWhile is_digit t2 = ''.json''"
    by (auto simp: FindStringSubmatch_def Let_def split: list.splits if_splits)
  have "name = m1 @ ?r1" using m1 by simp
  moreover have "t1 = m2 @ ?r2" using m2 by simp
  moreover have "t2 = m3 @ ''.json''" using m3 r3 by (metis takeWhile_dropWhile_id)
  ultimately have "name = m1 @ ''_'' @ m2 @ ''_'' @ m3 @ ''.json''"
    using r1 r2 by simp
  then show ?thesis using m1 m2 m3 by (simp add: regexp_match_def list_all_takeWhile)
qed

lemma FindStringSubmatch_None_iff:
  "FindStringSubmatch name = None \<longleftrightarrow> (\<forall>m1 m2 m3. \<not> regexp_match name m1 m2 m3)"
proof
  assume "FindStringSubmatch name = None"
  then show "\<forall>m1 m2 m3. \<not> regexp_match name m1 m2 m3"
    using FindStringSubmatch_complete by fastforce
next
  assume none: "\<forall>m1 m2 m3. \<not> regexp_match name m1 m2 m3"
  show "FindStringSubmatch name = None"
  proof (cases "FindStringSubmatch name")
    case None
    then show ?thesis .
  next
    case (Some g)
    obtain m1 m2 m3 where "g = (m1, m2, m3)" by (cases g) auto
    with Some none FindStringSubmatch_sound show ?thesis by blast
  qed
qed

lemma Atoi_digits:
  assumes "m3 \<noteq> []" "list_all is_digit m3"
  shows "Atoi m3 =
     (if decimal_value m3 \<le> maxInt then Inr (decimal_value m3)
      else Inl (''strconv.Atoi: parsing '' @ quote m3 @ '': value out of range''))"
proof -
  obtain c r where m3: "m3 = c # r" using assms(1) by (cases m3) auto
  with assms(2) have "is_digit c" by simp
  then have "c \<noteq> CHR ''-''" "c \<noteq> CHR ''+''" by (auto simp: is_digit_def)
  with m3 assms(2) show ?thesis by (simp add: Atoi_def)
qed

text \<open>
  C4 (as amended).  A directory entry is skipped; a plain file whose name does not have the
  shape \<open>{digits}_{letters}_{digits}.json\<close> is skipped; a plain file whose name has
  that shape with groups \<open>m1\<close>, \<open>m2\<close>, \<open>m3\<close> yields the triple (\<open>m1\<close>, \<open>m2\<close> in
  upper case, the decimal value of \<open>m3\<close>) when that value is at most \<open>2^63 - 1\<close>, and
  is a fatal error when it is larger.  A skipped entry leaves the state of the scan
  as it was.
\<close>

theorem read_entry_by_filename:
  "(IsDir entry \<longrightarrow> read_entry entry = Skip) \<and>
   (\<not> IsDir entry \<and> (\<forall>m1 m2 m3. \<not> regexp_match (DirEntry.Name entry) m1 m2 m3) \<longrightarrow>
      read_entry entry = Skip) \<and>
   (\<not> IsDir entry \<and> regexp_match (DirEntry.Name entry) m1 m2 m3 \<and> decimal_value m3 \<le> maxInt \<longrightarrow>
      read_entry entry = Triple m1 (ToUpper m2) (decimal_value m3)) \<and>
   (\<not> IsDir entry \<and> regexp_match (DirEntry.Name entry) m1 m2 m3 \<and> maxInt < decimal_value m3 \<longrightarrow>
      read_entry entry =
        Fatal (''invalid cycle in filename '' @ quote (DirEntry.Name entry) @
          '': strconv.Atoi: parsing '' @ quote m3 @ '': value out of range'')) \<and>
   (read_entry entry = Skip \<longrightarrow>
      scan_entries dir (entry # entries) st = scan_entries dir entries st)"
proof -
  have dir: "IsDir entry \<longrightarrow> read_entry entry = Skip"
    by (simp add: read_entry_def)
  have nomatch: "\<not> IsDir entry \<and> (\<forall>m1 m2 m3. \<not> regexp_match (DirEntry.Name entry) m1 m2 m3) \<longrightarrow>
      read_entry entry = Skip"
    using FindStringSubmatch_None_iff [of "DirEntry.Name entry"] by (auto simp: read_entry_def)
  have match: "read_entry entry =
      (case Atoi m3 of
         Inl err \<Rightarrow> Fatal (''invalid cycle in filename '' @ quote (DirEntry.Name entry) @ '': '' @ err)
       | Inr cn \<Rightarrow> Triple m1 (ToUpper m2) cn)"
    if "\<not> IsDir entry" "regexp_match (DirEntry.Name entry) m1 m2 m3"
    using that FindStringSubmatch_complete [of "DirEntry.Name entry" m1 m2 m3]
    by (simp add: read_entry_def)
  have atoi: "Atoi m3 =
     (if decimal_value m3 \<le> maxInt then Inr (decimal_value m3)
      else Inl (''strconv.Atoi: parsing '' @ quote m3 @ '': value out of range''))"
    if "regexp_match (DirEntry.Name entry) m1 m2 m3"
    using that Atoi_digits [of m3] by (simp add: regexp_match_def)
  have skip: "read_entry entry = Skip \<longrightarrow>
      scan_entries dir (entry # entries) st = scan_entries dir entries st"
    by (cases st) simp
  from dir nomatch match atoi skip show ?thesis by simp
qed

theorem read_entry_by_filename_witness:
  "read_entry \<lparr>DirEntry.Name = ''cycle-12'', IsDir = True\<rparr> = Skip \<and>
   read_entry \<lparr>DirEntry.Name = ''README.md'', IsDir = False\<rparr> = Skip \<and>
   read_entry \<lparr>DirEntry.Name = ''56_eg_12.json'', IsDir = False\<rparr> = Triple ''56'' ''EG'' 12 \<and>
   read_entry \<lparr>DirEntry.Name = ''1_a_9223372036854775808.json'', IsDir = False\<rparr> =
     Fatal (''invalid cycle in filename '' @ quote ''1_a_9223372036854775808.json'' @
       '': strconv.Atoi: parsing '' @ quote ''9223372036854775808'' @ '': value out of range'') \<and>
   scan_entries ''d'' [\<lparr>DirEntry.Name = ''README.md'', IsDir = False\<rparr>] (0, []) = Inr (0, [])"
proof -
  have none: "\<forall>m1 m2 m3. \<not> regexp_match ''README.md'' m1 m2 m3"
    using FindStringSubmatch_None_iff [of "''README.md''"]
    by (simp add: FindStringSubmatch_def is_digit_def)
  have ok: "regexp_match ''56_eg_12.json'' ''56'' ''eg'' ''12''"
    by (simp add: regexp_match_def is_digit_def is_letter_def)
  have big: "regexp_match ''1_a_9223372036854775808.json'' ''1'' ''a'' ''9223372036854775808''"
    by (simp add: regexp_match_def is_digit_def is_letter_def)
  have v12: "decimal_value ''12'' = 12"
    by (simp add: decimal_value_def digit_val_def)
  have vbig: "decimal_value ''9223372036854775808'' = 9223372036854775808"
    by (simp add: decimal_value_def digit_val_def)
  have up: "ToUpper ''eg'' = ''EG''"
    by (simp add: ToUpper_def upper_char_def)
  have a: "read_entry \<lparr>DirEntry.Name = ''cycle-12'', IsDir = True\<rparr> = Skip"
    using read_entry_by_filename [of "\<lparr>DirEntry.Name = ''cycle-12'', IsDir = True\<rparr>"] by simp
  have b: "read_entry \<lparr>DirEntry.Name = ''README.md'', IsDir = False\<rparr> = Skip"
    using read_entry_by_filename [of "\<lparr>DirEntry.Name = ''README.md'', IsDir = False\<rparr>"] none by simp
  have c: "read_entry \<lparr>DirEntry.Name = ''56_eg_12.json'', IsDir = False\<rparr> = Triple ''56'' ''EG'' 12"
    using read_entry_by_filename
      [of "\<lparr>DirEntry.Name = ''56_eg_12.json'', IsDir = False\<rparr>" "''56''" "''eg''" "''12''"]
      ok v12 up
    by (simp add: maxInt_def)
  have d: "read_entry \<lparr>DirEntry.Name = ''1_a_9223372036854775808.json'', IsDir = False\<rparr> =
     Fatal (''invalid cycle in filename '' @ quote ''1_a_9223372036854775808.json'' @
       '': strconv.Atoi: parsing '' @ quote ''9223372036854775808'' @ '': value out of range'')"
    using read_entry_by_filename
      [of "\<lparr>DirEntry.Name = ''1_a_9223372036854775808.json'', IsDir = False\<rparr>"
          "''1''" "''a''" "''9223372036854775808''"]
      big vbig
    by (simp add: maxInt_def)
  have e: "scan_entries ''d'' [\<lparr>DirEntry.Name = ''README.md'', IsDir = False\<rparr>] (0, []) = Inr (0, [])"
    using read_entry_by_filename
      [of "\<lparr>DirEntry.Name = ''README.md'', IsDir = False\<rparr>" _ _ _ "''d''" "[]" "(0, [])"] b
    by simp
  from a b c d e show ?thesis by simp
qed

text \<open>
  The claim as first stated fails: the name below has the shape, and no triple is extracted
  from it, since its cycle group is beyond the range of \<open>int\<close>.
\<close>

theorem read_entry_range_counterexample:
  "regexp_match ''1_a_9223372036854775808.json'' ''1'' ''a'' ''9223372036854775808'' \<and>
   (\<forall>c t n. read_entry \<lparr>DirEntry.Name = ''1_a_9223372036854775808.json'', IsDir = False\<rparr>
      \<noteq> Triple c t n)"
  by (simp add: regexp_match_def read_entry_def FindStringSubmatch_def is_digit_def is_letter_def
      Atoi_def decimal_value_def digit_val_def maxInt_def)

section \<open>Overlap-free families of strings\<close>

lemma tails_iff: "w \<in> set (tails u) \<longleftrightarrow> w \<noteq> [] \<and> suffix w u"
  by (induction u) (auto simp: suffix_Cons)

lemma tails_tl_iff: "w \<in> set (tails (tl u)) \<longleftrightarrow> w \<noteq> [] \<and> (\<exists>x. x \<noteq> [] \<and> u = x @ w)"
proof (cases u)
  case Nil
  then show ?thesis by simp
next
  case (Cons c cs)
  show ?thesis
  proof
    assume "w \<in> set (tails (tl u))"
    then have "w \<noteq> []" "suffix w cs" using Cons by (auto simp: tails_iff)
    then obtain y where "cs = y @ w" by (auto simp: suffix_def)
    then have "u = (c # y) @ w" using Cons by simp
    then show "w \<noteq> [] \<and> (\<exists>x. x \<noteq> [] \<and> u = x @ w)" using \<open>w \<noteq> []\<close> by blast
  next
    assume "w \<noteq> [] \<and> (\<exists>x. x \<noteq> [] \<and> u = x @ w)"
    then obtain x where x: "w \<noteq> []" "x \<noteq> []" "u = x @ w" by blast
    then obtain y where "x = c # y" using Cons by (cases x) auto
    then have "cs = y @ w" using x Cons by simp
    then show "w \<in> set (tails (tl u))" using x Cons by (auto simp: tails_iff suffix_def)
  qed
qed

lemma overlap_free_nonempty: "overlap_free us \<Longrightarrow> u \<in> set us \<Longrightarrow> u \<noteq> []"
  by (auto simp: overlap_free_def list_all_iff)

lemma overlap_free_prefix:
  "overlap_free us \<Longrightarrow> u \<in> set us \<Longrightarrow> v \<in> set us \<Longrightarrow> prefix u v \<Longrightarrow> u = v"
  by (auto simp: overlap_free_def no_overlap_def list_all_iff)

lemma overlap_free_inner:
  assumes "overlap_free us" "u \<in> set us" "v \<in> set us" "u = x @ w" "x \<noteq> []" "w \<noteq> []"
  shows "\<not> prefix w v \<and> \<not> prefix v w"
proof -
  have "w \<in> set (tails (tl u))" using assms(4-6) tails_tl_iff by blast
  moreover have "list_all (\<lambda>w. \<not> prefix w v \<and> \<not> prefix v w) (tails (tl u))"
    using assms(1-3) by (auto simp: overlap_free_def no_overlap_def list_all_iff)
  ultimately show ?thesis by (auto simp: list_all_iff)
qed

lemma no_match_inside:
  assumes "overlap_free us" "u \<in> set us" "v \<in> set us" "u \<noteq> v" "u = x @ w" "w \<noteq> []"
  shows "\<not> prefix v (w @ X)"
proof
  assume "prefix v (w @ X)"
  then have cmp: "prefix v w \<or> prefix w v"
    by (auto simp: prefix_append)
  show False
  proof (cases "x = []")
    case True
    then have "w = u" using assms(5) by simp
    with cmp overlap_free_prefix [OF assms(1) assms(2) assms(3)]
      overlap_free_prefix [OF assms(1) assms(3) assms(2)] assms(4)
    show False by blast
  next
    case False
    with cmp overlap_free_inner [OF assms(1) assms(2) assms(3) assms(5) _ assms(6)]
    show False by blast
  qed
qed

section \<open>Sequential replacement and the single pass\<close>

lemma find_SomeD: "find P xs = Some x \<Longrightarrow> P x \<and> x \<in> set xs"
  by (induction xs) (auto split: if_splits)

lemma ReplaceAll_Nil: "old \<noteq> [] \<Longrightarrow> ReplaceAll [] old new = []"
  by (simp add: ReplaceAll.simps)

lemma ReplaceAll_match:
  "old \<noteq> [] \<Longrightarrow> ReplaceAll (old @ s) old new = new @ ReplaceAll s old new"
  by (subst ReplaceAll.simps) simp

lemma ReplaceAll_step:
  "old \<noteq> [] \<Longrightarrow> \<not> prefix old (c # s) \<Longrightarrow> ReplaceAll (c # s) old new = c # ReplaceAll s old new"
  by (subst ReplaceAll.simps) simp

lemma ReplaceAll_absent: "\<not> Contains s old \<Longrightarrow> ReplaceAll s old new = s"
proof (induction s)
  case Nil
  then show ?case by (simp add: ReplaceAll.simps)
next
  case (Cons c s)
  then have "old \<noteq> []" "\<not> prefix old (c # s)" "\<not> Contains s old" by auto
  with Cons.IH show ?case by (simp add: ReplaceAll_step)
qed

lemma ReplaceAll_skip:
  assumes "overlap_free us" "r \<in> set us" "a \<in> set us" "a \<noteq> r"
  shows "r = x @ w \<Longrightarrow> ReplaceAll (w @ X) a b = w @ ReplaceAll X a b"
proof (induction w arbitrary: x)
  case Nil
  then show ?case by simp
next
  case (Cons c w)
  have a: "a \<noteq> []" using assms overlap_free_nonempty by blast
  have "\<not> prefix a ((c # w) @ X)"
    using no_match_inside [OF assms(1) assms(2) assms(3) _ Cons.prems] assms(4) by blast
  then have "ReplaceAll ((c # w) @ X) a b = c # ReplaceAll (w @ X) a b"
    using a by (simp add: ReplaceAll_step)
  moreover have "r = (x @ [c]) @ w" using Cons.prems by simp
  ultimately show ?case using Cons.IH by simp
qed

lemma substitute_once_Nil: "substitute_once R [] = []"
  by (simp add: substitute_once.simps)

lemma substitute_once_match:
  "s \<noteq> [] \<Longrightarrow> find (\<lambda>(l, r). l \<noteq> [] \<and> prefix l s) R = Some (l, r) \<Longrightarrow>
   substitute_once R s = r @ substitute_once R (drop (length l) s)"
  by (subst substitute_once.simps) simp

lemma substitute_once_step:
  "find (\<lambda>(l, r). l \<noteq> [] \<and> prefix l (c # s)) R = None \<Longrightarrow>
   substitute_once R (c # s) = c # substitute_once R s"
  by (subst substitute_once.simps) simp

lemma substitute_skip:
  assumes "overlap_free us" "r \<in> set us" "fst ` set R \<subseteq> set us" "r \<notin> fst ` set R"
  shows "r = x @ w \<Longrightarrow> substitute_once R (w @ X) = w @ substitute_once R X"
proof (induction w arbitrary: x)
  case Nil
  then show ?case by simp
next
  case (Cons c w)
  have "\<not> prefix l ((c # w) @ X)" if "(l, r') \<in> set R" for l r'
  proof -
    have "l \<in> set us" "r \<noteq> l" using that assms(3,4) by force+
    then show ?thesis
      using no_match_inside [OF assms(1) assms(2) _ _ Cons.prems] by blast
  qed
  then have "find (\<lambda>(l, r). l \<noteq> [] \<and> prefix l (c # (w @ X))) R = None"
    by (auto simp: find_None_iff)
  then have "substitute_once R ((c # w) @ X) = c # substitute_once R (w @ X)"
    by (simp add: substitute_once_step)
  moreover have "r = (x @ [c]) @ w" using Cons.prems by simp
  ultimately show ?case using Cons.IH by simp
qed

lemma prefix_through_substitute:
  assumes "overlap_free us" "a \<in> set us" "snd ` set R \<subseteq> set us"
  shows "lits \<noteq> [] \<Longrightarrow> prefix a (lits @ substitute_once R t) \<Longrightarrow> prefix a (lits @ t)"
proof (induction "length t" arbitrary: t lits rule: less_induct)
  case less
  show ?case
  proof (cases t)
    case Nil
    with less.prems show ?thesis by (simp add: substitute_once_Nil)
  next
    case (Cons c cs)
    show ?thesis
    proof (cases "find (\<lambda>(l, r). l \<noteq> [] \<and> prefix l t) R")
      case None
      then have "substitute_once R t = c # substitute_once R cs"
        using Cons by (simp add: substitute_once_step)
      then have "prefix a ((lits @ [c]) @ substitute_once R cs)"
        using less.prems by simp
      then have "prefix a ((lits @ [c]) @ cs)"
        using less.hyps [of cs "lits @ [c]"] Cons by simp
      then show ?thesis using Cons by simp
    next
      case (Some lr)
      obtain l r where lr: "lr = (l, r)" by (cases lr) auto
      have "(l, r) \<in> set R" using Some lr find_SomeD by fastforce
      then have r: "r \<in> set us" using assms(3) by force
      have eq: "substitute_once R t = r @ substitute_once R (drop (length l) t)"
        using Some lr Cons by (simp add: substitute_once_match)
      show ?thesis
      proof (cases "prefix a lits")
        case True
        then show ?thesis by (simp add: prefix_prefix)
      next
        case False
        with less.prems(2) eq obtain w where w: "a = lits @ w"
          "prefix w (r @ substitute_once R (drop (length l) t))"
          by (auto simp: prefix_append)
        with False have "w \<noteq> []" by auto
        moreover have "prefix w r \<or> prefix r w"
          using w(2) by (auto simp: prefix_append)
        ultimately show ?thesis
          using overlap_free_inner [OF assms(1) assms(2) r w(1) less.prems(1)] by blast
      qed
    qed
  qed
qed

lemma find_append:
  "find P (xs @ ys) = (case find P xs of None \<Rightarrow> find P ys | Some x \<Rightarrow> Some x)"
  by (induction xs) auto

lemma ReplaceAll_after_substitute:
  assumes "overlap_free us" "a \<in> set us" "fst ` set R \<subseteq> set us" "snd ` set R \<subseteq> set us"
    "a \<notin> fst ` set R" "a \<notin> snd ` set R"
  shows "ReplaceAll (substitute_once R s) a b = substitute_once (R @ [(a, b)]) s"
proof (induction "length s" arbitrary: s rule: less_induct)
  case less
  have a: "a \<noteq> []" using assms overlap_free_nonempty by blast
  show ?case
  proof (cases s)
    case Nil
    then show ?thesis using a by (simp add: substitute_once_Nil ReplaceAll_Nil)
  next
    case (Cons c cs)
    let ?P = "\<lambda>(l, r). l \<noteq> [] \<and> prefix l s"
    show ?thesis
    proof (cases "find ?P R")
      case (Some lr)
      obtain l r where lr: "lr = (l, r)" by (cases lr) auto
      have lr_in: "l \<noteq> [] \<and> prefix l s \<and> (l, r) \<in> set R"
        using Some lr find_SomeD [of ?P R "(l, r)"] by simp
      then have l: "l \<noteq> []" and r: "r \<in> set us" "a \<noteq> r"
        using assms(4,6) by force+
      have short: "length (drop (length l) s) < length s" using l Cons by simp
      have "find ?P (R @ [(a, b)]) = Some (l, r)" using Some lr by (simp add: find_append)
      then have rhs: "substitute_once (R @ [(a, b)]) s =
          r @ substitute_once (R @ [(a, b)]) (drop (length l) s)"
        using Cons by (simp add: substitute_once_match)
      have "substitute_once R s = r @ substitute_once R (drop (length l) s)"
        using Some lr Cons by (simp add: substitute_once_match)
      then have "ReplaceAll (substitute_once R s) a b =
          r @ ReplaceAll (substitute_once R (drop (length l) s)) a b"
        using ReplaceAll_skip [OF assms(1) r(1) assms(2) r(2), of "[]" r] by simp
      then show ?thesis using rhs less.hyps [OF short] by simp
    next
      case None
      show ?thesis
      proof (cases "prefix a s")
        case True
        then obtain s' where s': "s = a @ s'" by (auto simp: prefix_def)
        have short: "length s' < length s" using s' a by simp
        have "find ?P (R @ [(a, b)]) = Some (a, b)"
          using None True a by (simp add: find_append)
        moreover have "s \<noteq> []" using Cons by simp
        ultimately have "substitute_once (R @ [(a, b)]) s =
            b @ substitute_once (R @ [(a, b)]) (drop (length a) s)"
          by (rule substitute_once_match [rotated])
        moreover have "drop (length a) s = s'" using s' by simp
        ultimately have rhs: "substitute_once (R @ [(a, b)]) s =
            b @ substitute_once (R @ [(a, b)]) s'"
          by simp
        have "substitute_once R s = a @ substitute_once R s'"
          using substitute_skip [OF assms(1) assms(2) assms(3) assms(5), of "[]" a s'] s' by simp
        then have "ReplaceAll (substitute_once R s) a b = b @ ReplaceAll (substitute_once R s') a b"
          using a by (simp add: ReplaceAll_match)
        then show ?thesis using rhs less.hyps [OF short] by simp
      next
        case False
        have "find ?P (R @ [(a, b)]) = None"
          using None False by (simp add: find_append)
        then have rhs: "substitute_once (R @ [(a, b)]) s = c # substitute_once (R @ [(a, b)]) cs"
          using Cons by (simp add: substitute_once_step)
        have lhs: "substitute_once R s = c # substitute_once R cs"
          using None Cons by (simp add: substitute_once_step)
        have "\<not> prefix a ([c] @ substitute_once R cs)"
          using prefix_through_substitute [OF assms(1) assms(2) assms(4), of "[c]" cs] False Cons
          by auto
        then have "ReplaceAll (substitute_once R s) a b = c # ReplaceAll (substitute_once R cs) a b"
          using lhs a by (simp add: ReplaceAll_step)
        then show ?thesis using rhs less.hyps [of cs] Cons by simp
      qed
    qed
  qed
qed

lemma Contains_sublist: "Contains s u \<longleftrightarrow> sublist u s"
  by (induction s) (auto simp: sublist_Cons_right)

lemma Contains_prefix: "prefix u s \<Longrightarrow> Contains s u"
  by (cases s) auto

lemma Contains_drop: "Contains (drop n s) u \<Longrightarrow> Contains s u"
proof -
  assume "Contains (drop n s) u"
  then obtain ps ss where "drop n s = ps @ u @ ss"
    by (auto simp: Contains_sublist sublist_def)
  then have "s = (take n s @ ps) @ u @ ss"
    by (metis append.assoc append_take_drop_id)
  then show ?thesis
    unfolding Contains_sublist sublist_def by blast
qed

lemma find_NoneD: "find P xs = None \<Longrightarrow> x \<in> set xs \<Longrightarrow> \<not> P x"
  by (auto simp: find_None_iff)

lemma Contains_append_cases:
  assumes "Contains (r @ Y) u" "u \<noteq> []"
  shows "(\<exists>x w. r = x @ w \<and> w \<noteq> [] \<and> prefix u (w @ Y)) \<or> Contains Y u"
  using assms(1)
proof (induction r)
  case Nil
  then show ?case by simp
next
  case (Cons c r)
  show ?case
  proof (cases "prefix u ((c # r) @ Y)")
    case True
    then have "c # r = [] @ (c # r) \<and> c # r \<noteq> [] \<and> prefix u ((c # r) @ Y)" by simp
    then show ?thesis by blast
  next
    case False
    with Cons.prems have "Contains (r @ Y) u" by simp
    with Cons.IH consider x w where "r = x @ w" "w \<noteq> []" "prefix u (w @ Y)" | "Contains Y u"
      by blast
    then show ?thesis
    proof cases
      case 1
      then have "c # r = (c # x) @ w" by simp
      with 1 show ?thesis by blast
    next
      case 2
      then show ?thesis by simp
    qed
  qed
qed

lemma Contains_through_substitute:
  assumes "overlap_free us" "u \<in> set us" "fst ` set R \<subseteq> set us" "snd ` set R \<subseteq> set us"
  shows "Contains (substitute_once R s) u \<Longrightarrow>
    (u \<notin> fst ` set R \<and> Contains s u) \<or> (\<exists>l. (l, u) \<in> set R \<and> Contains s l)"
proof (induction "length s" arbitrary: s rule: less_induct)
  case less
  have u: "u \<noteq> []" using assms overlap_free_nonempty by blast
  show ?case
  proof (cases s)
    case Nil
    with less.prems u show ?thesis by (simp add: substitute_once_Nil)
  next
    case (Cons c cs)
    let ?P = "\<lambda>(l, r). l \<noteq> [] \<and> prefix l s"
    show ?thesis
    proof (cases "find ?P R")
      case (Some lr)
      obtain l r where lr: "lr = (l, r)" by (cases lr) auto
      have lr_in: "l \<noteq> [] \<and> prefix l s \<and> (l, r) \<in> set R"
        using Some lr find_SomeD [of ?P R "(l, r)"] by simp
      then have r: "r \<in> set us" using assms(4) by force
      let ?s' = "drop (length l) s"
      have short: "length ?s' < length s" using lr_in Cons by simp
      have "substitute_once R s = r @ substitute_once R ?s'"
        using Some lr Cons by (simp add: substitute_once_match)
      with less.prems have "Contains (r @ substitute_once R ?s') u" by simp
      from Contains_append_cases [OF this u]
      consider x w where "r = x @ w" "w \<noteq> []" "prefix u (w @ substitute_once R ?s')"
        | "Contains (substitute_once R ?s') u"
        by blast
      then show ?thesis
      proof cases
        case 1
        have "r = u"
        proof (rule ccontr)
          assume "r \<noteq> u"
          from no_match_inside [OF assms(1) r assms(2) this 1(1) 1(2)] 1(3) show False by blast
        qed
        moreover have "Contains s l" using lr_in Contains_prefix by blast
        ultimately show ?thesis using lr_in by blast
      next
        case 2
        from less.hyps [OF short 2] show ?thesis using Contains_drop by blast
      qed
    next
      case None
      have out: "substitute_once R s = c # substitute_once R cs"
        using None Cons by (simp add: substitute_once_step)
      show ?thesis
      proof (cases "prefix u (c # substitute_once R cs)")
        case True
        then have "prefix u ([c] @ cs)"
          using prefix_through_substitute [OF assms(1) assms(2) assms(4), of "[c]" cs] by simp
        then have p: "prefix u s" using Cons by simp
        have "u \<notin> fst ` set R"
        proof
          assume "u \<in> fst ` set R"
          then obtain r where "(u, r) \<in> set R" by force
          from find_NoneD [OF None this] p u show False by simp
        qed
        with p Contains_prefix show ?thesis by blast
      next
        case False
        with less.prems out have "Contains (substitute_once R cs) u" by simp
        from less.hyps [of cs, OF _ this] Cons show ?thesis by auto
      qed
    qed
  qed
qed

lemma unique_match:
  assumes "overlap_free us" "fst ` set R \<subseteq> set us" "distinct (map fst R)"
    "(l, r) \<in> set R" "prefix l t"
  shows "find (\<lambda>(l, r). l \<noteq> [] \<and> prefix l t) R = Some (l, r)"
proof -
  let ?P = "\<lambda>(l, r). l \<noteq> [] \<and> prefix l t"
  have l: "l \<in> set us" using assms(2,4) by force
  then have "l \<noteq> []" using assms(1) overlap_free_nonempty by blast
  with assms(4,5) have "\<exists>x\<in>set R. ?P x" by force
  then obtain lr where f: "find ?P R = Some lr" by (cases "find ?P R") (auto simp: find_None_iff)
  obtain l' r' where lr: "lr = (l', r')" by (cases lr) auto
  have in': "l' \<noteq> [] \<and> prefix l' t \<and> (l', r') \<in> set R"
    using f lr find_SomeD [of ?P R "(l', r')"] by simp
  then have l': "l' \<in> set us" using assms(2) by force
  have "prefix l l' \<or> prefix l' l" using in' assms(5) prefix_same_cases by blast
  then have "l = l'"
    using overlap_free_prefix [OF assms(1) l l'] overlap_free_prefix [OF assms(1) l' l] by blast
  moreover have "r = r'"
    using assms(3,4) in' \<open>l = l'\<close> eq_key_imp_eq_value by metis
  ultimately show ?thesis using f lr by simp
qed

lemma substitute_once_split:
  assumes "overlap_free us" "fst ` set R \<subseteq> set us" "distinct (map fst R)" "(l, r) \<in> set R"
  shows "substitute_once R (pre @ l @ post) = substitute_once R pre @ r @ substitute_once R post"
proof (induction "length pre" arbitrary: pre rule: less_induct)
  case less
  have l: "l \<in> set us" using assms(2,4) by force
  then have lne: "l \<noteq> []" using assms(1) overlap_free_nonempty by blast
  show ?case
  proof (cases pre)
    case Nil
    have "find (\<lambda>(l', r). l' \<noteq> [] \<and> prefix l' (l @ post)) R = Some (l, r)"
      using unique_match [OF assms(1-4), of "l @ post"] by simp
    moreover have "l @ post \<noteq> []" using lne by simp
    ultimately have "substitute_once R (l @ post) =
        r @ substitute_once R (drop (length l) (l @ post))"
      by (rule substitute_once_match [rotated])
    then show ?thesis using Nil by (simp add: substitute_once_Nil)
  next
    case (Cons c pre')
    let ?t = "pre @ l @ post"
    let ?P = "\<lambda>(l', r). l' \<noteq> [] \<and> prefix l' ?t"
    show ?thesis
    proof (cases "find ?P R")
      case (Some lr)
      obtain l' r' where lr: "lr = (l', r')" by (cases lr) auto
      have in': "l' \<noteq> [] \<and> prefix l' ?t \<and> (l', r') \<in> set R"
        using Some lr find_SomeD [of ?P R "(l', r')"] by simp
      then have l': "l' \<in> set us" using assms(2) by force
      have inside: "prefix l' pre"
      proof (rule ccontr)
        assume np: "\<not> prefix l' pre"
        with in' obtain w where w: "l' = pre @ w" "prefix w (l @ post)"
          by (auto simp: prefix_append)
        with np have "w \<noteq> []" by auto
        moreover have "pre \<noteq> []" using Cons by simp
        moreover have "prefix w l \<or> prefix l w" using w(2) by (auto simp: prefix_append)
        ultimately show False
          using overlap_free_inner [OF assms(1) l' l w(1)] by blast
      qed
      then obtain pre'' where pre'': "pre = l' @ pre''" by (auto simp: prefix_def)
      have short: "length pre'' < length pre" using pre'' in' by simp
      have "find (\<lambda>(l, r). l \<noteq> [] \<and> prefix l pre) R = Some (l', r')"
        using unique_match [OF assms(1-3) _ inside] in' by blast
      moreover have "pre \<noteq> []" using Cons by simp
      ultimately have "substitute_once R pre = r' @ substitute_once R (drop (length l') pre)"
        by (rule substitute_once_match [rotated])
      then have a: "substitute_once R pre = r' @ substitute_once R pre''" using pre'' by simp
      have "?t \<noteq> []" using Cons by simp
      with Some lr have "substitute_once R ?t = r' @ substitute_once R (drop (length l') ?t)"
        using substitute_once_match [of ?t R l' r'] by simp
      moreover have "drop (length l') ?t = pre'' @ l @ post" using pre'' by simp
      ultimately have "substitute_once R ?t = r' @ substitute_once R (pre'' @ l @ post)" by simp
      with a less.hyps [OF short] show ?thesis by simp
    next
      case None
      have "find (\<lambda>(l, r). l \<noteq> [] \<and> prefix l pre) R = None"
      proof (rule ccontr)
        assume "find (\<lambda>(l, r). l \<noteq> [] \<and> prefix l pre) R \<noteq> None"
        then obtain l' r' where in': "(l', r') \<in> set R" "l' \<noteq> []" "prefix l' pre"
          by (auto simp: find_None_iff)
        then have "prefix l' ?t" using prefix_prefix by blast
        with find_NoneD [OF None in'(1)] in'(2) show False by simp
      qed
      then have a: "substitute_once R pre = c # substitute_once R pre'"
        using Cons by (simp add: substitute_once_step)
      have "substitute_once R ?t = c # substitute_once R (pre' @ l @ post)"
        using None Cons by (simp add: substitute_once_step)
      with a less.hyps [of pre'] Cons show ?thesis by simp
    qed
  qed
qed

lemma substitute_once_absent:
  "\<forall>(l, r)\<in>set R. \<not> Contains s l \<Longrightarrow> substitute_once R s = s"
proof (induction s)
  case Nil
  then show ?case by (simp add: substitute_once_Nil)
next
  case (Cons c s)
  have "find (\<lambda>(l, r). l \<noteq> [] \<and> prefix l (c # s)) R = None"
    using Cons.prems by (auto simp: find_None_iff)
  moreover have "\<forall>(l, r)\<in>set R. \<not> Contains s l" using Cons.prems by auto
  ultimately show ?case using Cons.IH by (simp add: substitute_once_step)
qed

section \<open>The replacement loop\<close>

lemma url_rules_Cons:
  "url_rules pfx N (p # ps) =
     (cycle_url pfx (N - 1) p, cycle_url pfx N p) #
     (cycle_url pfx (N - 2) p, cycle_url pfx (N - 1) p) # url_rules pfx N ps"
  by (simp add: url_rules_def)

lemma url_rules_snoc:
  "url_rules pfx N (ps @ [p]) =
     (url_rules pfx N ps @ [(cycle_url pfx (N - 1) p, cycle_url pfx N p)]) @
     [(cycle_url pfx (N - 2) p, cycle_url pfx (N - 1) p)]"
  by (simp add: url_rules_def)

lemma url_family_snoc:
  "url_family pfx N (ps @ [p]) =
     url_family pfx N ps @ [cycle_url pfx (N - 2) p, cycle_url pfx (N - 1) p, cycle_url pfx N p]"
  by (simp add: url_family_def)

lemma url_family_mem:
  "p \<in> set ps \<Longrightarrow>
     cycle_url pfx (N - 2) p \<in> set (url_family pfx N ps) \<and>
     cycle_url pfx (N - 1) p \<in> set (url_family pfx N ps) \<and>
     cycle_url pfx N p \<in> set (url_family pfx N ps)"
  by (auto simp: url_family_def)

lemma url_rules_fst:
  "l \<in> fst ` set (url_rules pfx N ps) \<longleftrightarrow>
     (\<exists>p\<in>set ps. l = cycle_url pfx (N - 1) p \<or> l = cycle_url pfx (N - 2) p)"
  by (force simp: url_rules_def)

lemma url_rules_mem:
  "(l, r) \<in> set (url_rules pfx N ps) \<longleftrightarrow>
     (\<exists>p\<in>set ps. (l = cycle_url pfx (N - 1) p \<and> r = cycle_url pfx N p) \<or>
                  (l = cycle_url pfx (N - 2) p \<and> r = cycle_url pfx (N - 1) p))"
  by (auto simp: url_rules_def)

lemma url_rules_in_family:
  "fst ` set (url_rules pfx N ps) \<subseteq> set (url_family pfx N ps)"
  "snd ` set (url_rules pfx N ps) \<subseteq> set (url_family pfx N ps)"
  by (auto simp: url_rules_def url_family_def)

lemma overlap_free_append: "overlap_free (us @ vs) \<Longrightarrow> overlap_free us"
  by (auto simp: overlap_free_def list_all_iff)

lemma overlap_free_subset:
  "overlap_free vs \<Longrightarrow> set us \<subseteq> set vs \<Longrightarrow> overlap_free us"
  by (auto simp: overlap_free_def list_all_iff)

lemma clean_urls_butlast: "clean_urls pfx N (ps @ [p]) \<Longrightarrow> clean_urls pfx N ps"
  by (auto simp: clean_urls_def url_family_snoc dest: overlap_free_append)

lemma replace_urls_fold:
  "fst (replace_urls pfx N ps (s, ch)) =
     foldl (\<lambda>s (a, b). ReplaceAll s a b) s (url_rules pfx N ps)"
proof (induction ps arbitrary: s ch)
  case Nil
  then show ?case by (simp add: url_rules_def)
next
  case (Cons p ps)
  show ?case
    by (simp add: url_rules_Cons Let_def Cons.IH ReplaceAll_absent split_def)
qed

lemma replace_urls_one_pass_aux:
  "clean_urls pfx N ps \<Longrightarrow>
   foldl (\<lambda>s (a, b). ReplaceAll s a b) s (url_rules pfx N ps) =
     substitute_once (url_rules pfx N ps) s"
proof (induction ps rule: rev_induct)
  case Nil
  have "substitute_once [] t = t" for t
    by (induction t) (simp_all add: substitute_once_Nil substitute_once_step)
  then show ?case by (simp add: url_rules_def)
next
  case (snoc p ps)
  let ?old = "cycle_url pfx (N - 2) p" and ?prev = "cycle_url pfx (N - 1) p"
    and ?new = "cycle_url pfx N p"
  let ?R = "url_rules pfx N ps"
  let ?us = "url_family pfx N (ps @ [p])"
  have of: "overlap_free ?us" and d: "distinct ?us"
    using snoc.prems by (simp_all add: clean_urls_def)
  have IH: "foldl (\<lambda>s (a, b). ReplaceAll s a b) s ?R = substitute_once ?R s"
    using snoc.IH snoc.prems clean_urls_butlast by blast
  have sub: "fst ` set ?R \<subseteq> set ?us" "snd ` set ?R \<subseteq> set ?us"
    using url_rules_in_family [of pfx N ps] by (auto simp: url_family_snoc)
  have mem: "?old \<in> set ?us" "?prev \<in> set ?us" "?new \<in> set ?us"
    by (simp_all add: url_family_snoc)
  have fresh: "?prev \<notin> fst ` set ?R" "?prev \<notin> snd ` set ?R"
      "?old \<notin> fst ` set ?R" "?old \<notin> snd ` set ?R" "?old \<noteq> ?prev" "?old \<noteq> ?new"
    using d url_rules_in_family [of pfx N ps] by (auto simp: url_family_snoc)
  have step1: "ReplaceAll (substitute_once ?R s) ?prev ?new =
      substitute_once (?R @ [(?prev, ?new)]) s"
    by (rule ReplaceAll_after_substitute [OF of mem(2) sub fresh(1,2)])
  have step2: "ReplaceAll (substitute_once (?R @ [(?prev, ?new)]) s) ?old ?prev =
      substitute_once ((?R @ [(?prev, ?new)]) @ [(?old, ?prev)]) s"
  proof (rule ReplaceAll_after_substitute [OF of mem(1)])
    show "fst ` set (?R @ [(?prev, ?new)]) \<subseteq> set ?us" using sub mem by auto
    show "snd ` set (?R @ [(?prev, ?new)]) \<subseteq> set ?us" using sub mem by auto
    show "?old \<notin> fst ` set (?R @ [(?prev, ?new)])" using fresh by auto
    show "?old \<notin> snd ` set (?R @ [(?prev, ?new)])" using fresh by auto
  qed
  show ?case
    unfolding url_rules_snoc using IH step1 step2 by simp
qed

lemma replace_urls_unchanged:
  "\<forall>(l, r)\<in>set (url_rules pfx N ps). \<not> Contains s l \<Longrightarrow>
   replace_urls pfx N ps (s, ch) = (s, ch)"
  by (induction ps arbitrary: s ch) (auto simp: url_rules_Cons Let_def)

lemma distinct_family:
  assumes "distinct (url_family pfx N ps)" "q \<in> set ps" "q' \<in> set ps"
  shows "cycle_url pfx (N - 2) q \<noteq> cycle_url pfx (N - 1) q' \<and>
         cycle_url pfx (N - 2) q \<noteq> cycle_url pfx N q' \<and>
         cycle_url pfx (N - 1) q \<noteq> cycle_url pfx N q'"
  using assms
proof (induction ps)
  case Nil
  then show ?case by simp
next
  case (Cons p ps)
  have fam: "url_family pfx N (p # ps) =
      [cycle_url pfx (N - 2) p, cycle_url pfx (N - 1) p, cycle_url pfx N p] @ url_family pfx N ps"
    by (simp add: url_family_def)
  have d: "distinct (url_family pfx N ps)" using Cons.prems(1) fam by simp
  have m: "\<And>x. x \<in> set ps \<Longrightarrow>
     cycle_url pfx (N - 2) x \<in> set (url_family pfx N ps) \<and>
     cycle_url pfx (N - 1) x \<in> set (url_family pfx N ps) \<and>
     cycle_url pfx N x \<in> set (url_family pfx N ps)"
    using url_family_mem by blast
  consider "q = p" "q' = p" | "q = p" "q' \<in> set ps" | "q \<in> set ps" "q' = p"
    | "q \<in> set ps" "q' \<in> set ps"
    using Cons.prems(2,3) by auto
  then show ?case
  proof cases
    case 1
    then show ?thesis using Cons.prems(1) fam by auto
  next
    case 2
    then show ?thesis using Cons.prems(1) fam m [of q'] by auto
  next
    case 3
    then show ?thesis using Cons.prems(1) fam m [of q] by auto
  next
    case 4
    then show ?thesis using Cons.IH d by blast
  qed
qed

lemma url_free_rules:
  "url_free pfx N ps s \<longleftrightarrow> (\<forall>(l, r)\<in>set (url_rules pfx N ps). \<not> Contains s l)"
proof (induction ps)
  case Nil
  then show ?case by (simp add: url_free_def url_rules_def)
next
  case (Cons p ps)
  then show ?case by (auto simp: url_free_def url_rules_Cons)
qed

lemma distinct_rules_fst:
  "distinct (url_family pfx N ps) \<Longrightarrow> distinct (map fst (url_rules pfx N ps))"
proof (induction ps)
  case Nil
  then show ?case by (simp add: url_rules_def)
next
  case (Cons p ps)
  have fam: "url_family pfx N (p # ps) =
      [cycle_url pfx (N - 2) p, cycle_url pfx (N - 1) p, cycle_url pfx N p] @ url_family pfx N ps"
    by (simp add: url_family_def)
  have "fst ` set (url_rules pfx N ps) \<subseteq> set (url_family pfx N ps)"
    by (rule url_rules_in_family)
  then show ?case using Cons fam by (auto simp: url_rules_Cons)
qed

lemma occurrence_rule:
  "occ_pair oc \<in> set ps \<Longrightarrow> (url_before pfx N oc, url_after pfx N oc) \<in> set (url_rules pfx N ps)"
  by (cases oc) (auto simp: url_rules_mem)

lemma replace_urls_one_pass_fst:
  "clean_urls pfx N ps \<Longrightarrow>
   fst (replace_urls pfx N ps (s, ch)) = substitute_once (url_rules pfx N ps) s"
  by (simp add: replace_urls_fold replace_urls_one_pass_aux)

lemma substitute_weave:
  assumes "clean_urls pfx N ps"
  shows "url_free pfx N ps s0 \<Longrightarrow>
     \<forall>(oc, s)\<in>set segs. occ_pair oc \<in> set ps \<and> url_free pfx N ps s \<Longrightarrow>
     substitute_once (url_rules pfx N ps) (weave (url_before pfx N) s0 segs) =
       weave (url_after pfx N) s0 segs"
proof (induction segs arbitrary: s0)
  case Nil
  then show ?case by (simp add: substitute_once_absent url_free_rules)
next
  case (Cons seg segs)
  obtain oc s where seg: "seg = (oc, s)" by (cases seg) auto
  let ?R = "url_rules pfx N ps"
  have of: "overlap_free (url_family pfx N ps)" and d: "distinct (map fst ?R)"
    using assms distinct_rules_fst by (auto simp: clean_urls_def)
  have rule: "(url_before pfx N oc, url_after pfx N oc) \<in> set ?R"
    using Cons.prems(2) seg occurrence_rule by auto
  have "substitute_once ?R (s0 @ url_before pfx N oc @ weave (url_before pfx N) s segs) =
      substitute_once ?R s0 @ url_after pfx N oc @
      substitute_once ?R (weave (url_before pfx N) s segs)"
    by (rule substitute_once_split [OF of url_rules_in_family(1) d rule])
  moreover have "substitute_once ?R s0 = s0"
    using Cons.prems(1) by (simp add: substitute_once_absent url_free_rules)
  moreover have "substitute_once ?R (weave (url_before pfx N) s segs) =
      weave (url_after pfx N) s segs"
    using Cons.IH [of s] Cons.prems(2) seg by auto
  ultimately show ?case using seg by simp
qed


lemma replace_urls_changed_stays:
  "snd (replace_urls pfx N ps (s, True))"
  by (induction ps arbitrary: s) (auto simp: Let_def)

lemma replace_urls_not_changed:
  "\<not> snd (replace_urls pfx N ps (s, False)) \<Longrightarrow> fst (replace_urls pfx N ps (s, False)) = s"
proof (induction ps arbitrary: s)
  case Nil
  then show ?case by simp
next
  case (Cons p ps)
  show ?case
  proof (cases "Contains s (cycle_url pfx (N - 1) p) \<or> Contains s (cycle_url pfx (N - 2) p)")
    case True
    then have "snd (replace_urls pfx N (p # ps) (s, False))"
      using replace_urls_changed_stays by (auto simp: Let_def)
    with Cons.prems show ?thesis by simp
  next
    case False
    with Cons show ?thesis by (simp add: Let_def)
  qed
qed

lemma no_urls_after_pass:
  assumes clean: "clean_urls pfx N ps"
    and no_old: "\<forall>p\<in>set ps. \<not> Contains text (cycle_url pfx (N - 2) p)"
    and q: "q \<in> set ps"
  shows "\<not> Contains (substitute_once (url_rules pfx N ps) text) (cycle_url pfx (N - 1) q) \<and>
         \<not> Contains (substitute_once (url_rules pfx N ps) text) (cycle_url pfx (N - 2) q)"
proof -
  let ?R = "url_rules pfx N ps" and ?us = "url_family pfx N ps"
  have of: "overlap_free ?us" and d: "distinct ?us" using clean by (auto simp: clean_urls_def)
  note sub = url_rules_in_family [of pfx N ps]
  note mem = url_family_mem [OF q, of pfx N]
  have lhs: "cycle_url pfx (N - 1) q \<in> fst ` set ?R" "cycle_url pfx (N - 2) q \<in> fst ` set ?R"
    using q by (auto simp: url_rules_fst)
  have a: False if "Contains (substitute_once ?R text) (cycle_url pfx (N - 1) q)"
  proof -
    from Contains_through_substitute [OF of _ sub that] mem lhs
    obtain l where l: "(l, cycle_url pfx (N - 1) q) \<in> set ?R" "Contains text l" by blast
    from l(1) obtain p where p: "p \<in> set ps"
      "(l = cycle_url pfx (N - 1) p \<and> cycle_url pfx (N - 1) q = cycle_url pfx N p) \<or>
       (l = cycle_url pfx (N - 2) p \<and> cycle_url pfx (N - 1) q = cycle_url pfx (N - 1) p)"
      by (auto simp: url_rules_mem)
    with distinct_family [OF d q p(1)] have "l = cycle_url pfx (N - 2) p" by blast
    with l(2) p(1) no_old show False by blast
  qed
  have b: False if "Contains (substitute_once ?R text) (cycle_url pfx (N - 2) q)"
  proof -
    from Contains_through_substitute [OF of _ sub that] mem lhs
    obtain l where l: "(l, cycle_url pfx (N - 2) q) \<in> set ?R" by blast
    then obtain p where p: "p \<in> set ps"
      "cycle_url pfx (N - 2) q = cycle_url pfx N p \<or>
       cycle_url pfx (N - 2) q = cycle_url pfx (N - 1) p"
      by (auto simp: url_rules_mem)
    with distinct_family [OF d q p(1)] show False by blast
  qed
  from a b show ?thesis by blast
qed

section \<open>The rewriter's text transform\<close>

text \<open>
  C1 (as amended).  When the generated URLs are pairwise different and free of overlaps,
  the replacement loop computes the single pass: every occurrence of a previous-cycle URL
  of a pair becomes the new-cycle URL and every occurrence of an old-cycle URL becomes the
  previous-cycle URL, wherever it stands (\<open>pre\<close> and \<open>post\<close> are arbitrary), and what a
  replacement has written is not replaced again.
\<close>

theorem replace_urls_one_pass:
  assumes "clean_urls pfx N ps"
  shows "fst (replace_urls pfx N ps (text, ch)) = substitute_once (url_rules pfx N ps) text \<and>
     (\<forall>oc. occ_pair oc \<in> set ps \<longrightarrow>
        fst (replace_urls pfx N ps (pre @ url_before pfx N oc @ post, ch)) =
          fst (replace_urls pfx N ps (pre, ch)) @ url_after pfx N oc @
          fst (replace_urls pfx N ps (post, ch)))"
proof -
  let ?R = "url_rules pfx N ps"
  have of: "overlap_free (url_family pfx N ps)" and d: "distinct (map fst ?R)"
    using assms distinct_rules_fst by (auto simp: clean_urls_def)
  have "substitute_once ?R (pre @ url_before pfx N oc @ post) =
      substitute_once ?R pre @ url_after pfx N oc @ substitute_once ?R post"
    if "occ_pair oc \<in> set ps" for oc
    by (rule substitute_once_split [OF of url_rules_in_family(1) d occurrence_rule [OF that]])
  then show ?thesis using assms by (simp add: replace_urls_one_pass_fst)
qed

theorem replace_urls_one_pass_witness:
  "clean_urls ''https://h'' 12 [\<lparr>pair.ChainID = ''1'', pair.RewardType = ''EG''\<rparr>] \<and>
   fst (replace_urls ''https://h'' 12 [\<lparr>pair.ChainID = ''1'', pair.RewardType = ''EG''\<rparr>]
     (''a https://h/cycle-11/1_EG_11.json b https://h/cycle-10/1_EG_10.json'', False)) =
     ''a https://h/cycle-12/1_EG_12.json b https://h/cycle-11/1_EG_11.json'' \<and>
   fst (replace_urls ''https://h'' 12 [\<lparr>pair.ChainID = ''1'', pair.RewardType = ''EG''\<rparr>]
     (''a '' @ url_before ''https://h'' 12 (Old \<lparr>pair.ChainID = ''1'', pair.RewardType = ''EG''\<rparr>) @ '' b'',
      False)) =
     ''a https://h/cycle-11/1_EG_11.json b''"
proof -
  let ?p = "\<lparr>pair.ChainID = ''1'', pair.RewardType = ''EG''\<rparr>"
  let ?T = "''a https://h/cycle-11/1_EG_11.json b https://h/cycle-10/1_EG_10.json''"
  have c: "clean_urls ''https://h'' 12 [?p]"
    by code_simp
  have s: "substitute_once (url_rules ''https://h'' 12 [?p]) ?T =
      ''a https://h/cycle-12/1_EG_12.json b https://h/cycle-11/1_EG_11.json''"
    by code_simp
  have e: "fst (replace_urls ''https://h'' 12 [?p] (''a '', False)) @
      url_after ''https://h'' 12 (Old ?p) @
      fst (replace_urls ''https://h'' 12 [?p] ('' b'', False)) =
      ''a https://h/cycle-11/1_EG_11.json b''"
    by code_simp
  have m: "occ_pair (Old ?p) \<in> set [?p]"
    by simp
  note i = replace_urls_one_pass [OF c, of ?T False "''a ''" "'' b''"]
  from i have "fst (replace_urls ''https://h'' 12 [?p] (?T, False)) =
      substitute_once (url_rules ''https://h'' 12 [?p]) ?T"
    by (rule conjunct1)
  with s have a: "fst (replace_urls ''https://h'' 12 [?p] (?T, False)) =
      ''a https://h/cycle-12/1_EG_12.json b https://h/cycle-11/1_EG_11.json''"
    by (rule trans [rotated])
  from i m have "fst (replace_urls ''https://h'' 12 [?p]
      (''a '' @ url_before ''https://h'' 12 (Old ?p) @ '' b'', False)) =
      fst (replace_urls ''https://h'' 12 [?p] (''a '', False)) @
      url_after ''https://h'' 12 (Old ?p) @
      fst (replace_urls ''https://h'' 12 [?p] ('' b'', False))"
    by blast
  with e have b: "fst (replace_urls ''https://h'' 12 [?p]
      (''a '' @ url_before ''https://h'' 12 (Old ?p) @ '' b'', False)) =
      ''a https://h/cycle-11/1_EG_11.json b''"
    by (rule trans [rotated])
  from c a b show ?thesis by blast
qed

text \<open>
  The claim as first stated fails for a prefix whose URLs overlap themselves.  With the
  prefix \<open>.json\<close> the text below holds the previous-cycle URL at offset 0 and again at
  offset 19; the occurrence at offset 19 is still the previous-cycle URL afterwards.
\<close>

theorem replace_urls_overlap_counterexample:
  "''.json/cycle-1/1_A_1.json/cycle-1/1_A_1.json'' =
     ''.json/cycle-1/1_A_1'' @ cycle_url ''.json'' 1 \<lparr>pair.ChainID = ''1'', pair.RewardType = ''A''\<rparr> \<and>
   fst (replace_urls ''.json'' 2 [\<lparr>pair.ChainID = ''1'', pair.RewardType = ''A''\<rparr>]
     (''.json/cycle-1/1_A_1.json/cycle-1/1_A_1.json'', False)) =
     ''.json/cycle-2/1_A_2'' @ cycle_url ''.json'' 1 \<lparr>pair.ChainID = ''1'', pair.RewardType = ''A''\<rparr>"
  by code_simp

text \<open>
  C5 (as amended).  A text without any previous-cycle or old-cycle URL of a pair is left
  as it is.  When the generated URLs are pairwise different and free of overlaps, and the
  text consists of URL-free stretches \<open>s0, s1, ..., sn\<close> with occurrences of
  previous-cycle and old-cycle URLs between them, the result has each occurrence moved
  one cycle on (previous to new, old to previous) and every stretch unchanged.
\<close>

theorem replace_urls_frame:
  "(url_free pfx N ps text \<longrightarrow> replace_urls pfx N ps (text, ch) = (text, ch)) \<and>
   (clean_urls pfx N ps \<and> url_free pfx N ps s0 \<and>
    (\<forall>(oc, s)\<in>set segs. occ_pair oc \<in> set ps \<and> url_free pfx N ps s) \<longrightarrow>
      fst (replace_urls pfx N ps (weave (url_before pfx N) s0 segs, ch)) =
        weave (url_after pfx N) s0 segs)"
  using substitute_weave [of pfx N ps s0 segs]
  by (simp add: replace_urls_unchanged url_free_rules replace_urls_one_pass_fst)

theorem replace_urls_frame_witness:
  "url_free ''https://h'' 7 [\<lparr>pair.ChainID = ''56'', pair.RewardType = ''LM''\<rparr>] ''plain text'' \<and>
   replace_urls ''https://h'' 7 [\<lparr>pair.ChainID = ''56'', pair.RewardType = ''LM''\<rparr>] (''plain text'', False) =
     (''plain text'', False) \<and>
   clean_urls ''https://h'' 7 [\<lparr>pair.ChainID = ''56'', pair.RewardType = ''LM''\<rparr>] \<and>
   fst (replace_urls ''https://h'' 7 [\<lparr>pair.ChainID = ''56'', pair.RewardType = ''LM''\<rparr>]
     (''x: https://h/cycle-6/56_LM_6.json y: https://h/cycle-5/56_LM_5.json!'', False)) =
     ''x: https://h/cycle-7/56_LM_7.json y: https://h/cycle-6/56_LM_6.json!''"
proof -
  let ?p = "\<lparr>pair.ChainID = ''56'', pair.RewardType = ''LM''\<rparr>"
  let ?segs = "[(Prev ?p, '' y: ''), (Old ?p, ''!'')]"
  have c: "clean_urls ''https://h'' 7 [?p]"
    by code_simp
  have f: "url_free ''https://h'' 7 [?p] ''plain text''" "url_free ''https://h'' 7 [?p] ''x: ''"
    "url_free ''https://h'' 7 [?p] '' y: ''" "url_free ''https://h'' 7 [?p] ''!''"
    by code_simp+
  have w1: "''x: https://h/cycle-6/56_LM_6.json y: https://h/cycle-5/56_LM_5.json!'' =
      weave (url_before ''https://h'' 7) ''x: '' ?segs"
    by code_simp
  have w2: "weave (url_after ''https://h'' 7) ''x: '' ?segs =
      ''x: https://h/cycle-7/56_LM_7.json y: https://h/cycle-6/56_LM_6.json!''"
    by code_simp
  have segs: "\<forall>(oc, s)\<in>set ?segs. occ_pair oc \<in> set [?p] \<and> url_free ''https://h'' 7 [?p] s"
    using f by simp
  note i = replace_urls_frame [of "''https://h''" 7 "[?p]" "''plain text''" False "''x: ''" ?segs]
  from i f(1) have a: "replace_urls ''https://h'' 7 [?p] (''plain text'', False) =
      (''plain text'', False)"
    by blast
  from i c f(2) segs have "fst (replace_urls ''https://h'' 7 [?p]
      (weave (url_before ''https://h'' 7) ''x: '' ?segs, False)) =
      weave (url_after ''https://h'' 7) ''x: '' ?segs"
    by blast
  then have b: "fst (replace_urls ''https://h'' 7 [?p]
      (''x: https://h/cycle-6/56_LM_6.json y: https://h/cycle-5/56_LM_5.json!'', False)) =
      ''x: https://h/cycle-7/56_LM_7.json y: https://h/cycle-6/56_LM_6.json!''"
    unfolding w2 by (subst w1) 
  from f(1) a c b show ?thesis by blast
qed

text \<open>
  The claim as first stated fails for a prefix that lets a replacement create a new
  occurrence.  With the prefix \<open>2.json\<close> the text below is the previous-cycle URL followed
  by \<open>/cycle-0/1_A_0.json\<close>; the old-cycle URL occurs nowhere in it, and yet the text
  behind the URL is changed.
\<close>

theorem replace_urls_frame_counterexample:
  "\<not> Contains (cycle_url ''2.json'' 1 \<lparr>pair.ChainID = ''1'', pair.RewardType = ''A''\<rparr> @ ''/cycle-0/1_A_0.json'')
       (cycle_url ''2.json'' 0 \<lparr>pair.ChainID = ''1'', pair.RewardType = ''A''\<rparr>) \<and>
   url_free ''2.json'' 2 [\<lparr>pair.ChainID = ''1'', pair.RewardType = ''A''\<rparr>] ''/cycle-0/1_A_0.json'' \<and>
   fst (replace_urls ''2.json'' 2 [\<lparr>pair.ChainID = ''1'', pair.RewardType = ''A''\<rparr>]
     (cycle_url ''2.json'' 1 \<lparr>pair.ChainID = ''1'', pair.RewardType = ''A''\<rparr> @ ''/cycle-0/1_A_0.json'', False)) =
     cycle_url ''2.json'' 2 \<lparr>pair.ChainID = ''1'', pair.RewardType = ''A''\<rparr> @ ''/cycle-1/1_A_1.json''"
  by code_simp

section \<open>Running the rewriter twice\<close>

text \<open>
  C2 (as amended).  Let a first run succeed on a values file in which no old-cycle URL of
  a discovered pair occurs, the generated URLs being pairwise different and free of
  overlaps.  Then a second run on the resulting file (same cycle directory, same prefix,
  the pairs visited in any order) performs no substitution: it reports that nothing
  changed, exits with code 0 and writes nothing.
\<close>

theorem second_run_no_changes:
  assumes flags: "valuesPath fl \<noteq> []" "cycleDir fl \<noteq> []"
    and dir: "ReadDir w = Inr entries"
      "scan_entries (cycleDir fl) entries (0, []) = Inr (N, ps)" "2 \<le> N" "ps \<noteq> []"
    and rd: "ReadFile w = Inr text" "WriteFile_err w = None"
    and clean: "clean_urls (rawPrefix fl) N (range_order w ps)"
    and no_old: "\<forall>p\<in>set (range_order w ps). \<not> Contains text (cycle_url (rawPrefix fl) (N - 2) p)"
    and upd: "text' = fst (replace_urls (rawPrefix fl) N (range_order w ps) (text, False))"
    and second: "ReadDir w2 = ReadDir w" "ReadFile w2 = Inr text'"
      "set (range_order w2 ps) = set (range_order w ps)"
  shows "exit_code (rewriter fl w) = 0 \<and>
     (file_ops (rewriter fl w) = [WriteFile (valuesPath fl) text'] \<or>
      file_ops (rewriter fl w) = [] \<and> text' = text) \<and>
     rewriter fl w2 =
       \<lparr>exit_code = 0, stdout = ''No changes made to values.yaml (nothing matched).'' @ [newline],
        stderr = [], file_ops = []\<rparr>"
proof -
  let ?pfx = "rawPrefix fl"
  let ?o1 = "range_order w ps" and ?o2 = "range_order w2 ps"
  have Nz: "N \<noteq> 0" "\<not> N < 2" using dir(3) by auto
  have first: "exit_code (rewriter fl w) = 0 \<and>
     (file_ops (rewriter fl w) = [WriteFile (valuesPath fl) text'] \<or>
      file_ops (rewriter fl w) = [] \<and> text' = text)"
    using flags dir(1,2,4) Nz rd upd replace_urls_not_changed [of ?pfx N ?o1 "text"]
    by (auto simp: rewriter_def Let_def)
  have pass: "text' = substitute_once (url_rules ?pfx N ?o1) text"
    using upd clean by (simp add: replace_urls_one_pass_fst)
  have "\<not> Contains text' l" if "(l, r) \<in> set (url_rules ?pfx N ?o2)" for l r
  proof -
    from that obtain q where q: "q \<in> set ?o2"
      "l = cycle_url ?pfx (N - 1) q \<or> l = cycle_url ?pfx (N - 2) q"
      by (auto simp: url_rules_mem)
    then have "q \<in> set ?o1" using second(3) by simp
    from no_urls_after_pass [OF clean no_old this] q(2) pass show ?thesis by auto
  qed
  then have "replace_urls ?pfx N ?o2 (text', False) = (text', False)"
    by (intro replace_urls_unchanged) auto
  then have "rewriter fl w2 =
       \<lparr>exit_code = 0, stdout = ''No changes made to values.yaml (nothing matched).'' @ [newline],
        stderr = [], file_ops = []\<rparr>"
    using flags dir Nz second by (simp add: rewriter_def)
  with first show ?thesis by simp
qed


theorem second_run_no_changes_witness:
  "rewriter \<lparr>valuesPath = ''values.yaml'', cycleDir = ''cycle-5'', rawPrefix = ''https://h''\<rparr>
     \<lparr>ReadDir = Inr [\<lparr>DirEntry.Name = ''1_eg_5.json'', IsDir = False\<rparr>],
      ReadFile = Inr ''u: https://h/cycle-4/1_EG_4.json'', WriteFile_err = None,
      range_order = (\<lambda>ps. ps)\<rparr> =
     \<lparr>exit_code = 0, stdout = ''Updated values.yaml via URL string replacement only.'' @ [newline],
      stderr = [], file_ops = [WriteFile ''values.yaml'' ''u: https://h/cycle-5/1_EG_5.json'']\<rparr> \<and>
   rewriter \<lparr>valuesPath = ''values.yaml'', cycleDir = ''cycle-5'', rawPrefix = ''https://h''\<rparr>
     \<lparr>ReadDir = Inr [\<lparr>DirEntry.Name = ''1_eg_5.json'', IsDir = False\<rparr>],
      ReadFile = Inr ''u: https://h/cycle-5/1_EG_5.json'', WriteFile_err = None,
      range_order = rev\<rparr> =
     \<lparr>exit_code = 0, stdout = ''No changes made to values.yaml (nothing matched).'' @ [newline],
      stderr = [], file_ops = []\<rparr>"
proof -
  let ?fl = "\<lparr>valuesPath = ''values.yaml'', cycleDir = ''cycle-5'', rawPrefix = ''https://h''\<rparr>"
  let ?entries = "[\<lparr>DirEntry.Name = ''1_eg_5.json'', IsDir = False\<rparr>]"
  let ?w = "\<lparr>ReadDir = Inr ?entries,
      ReadFile = Inr ''u: https://h/cycle-4/1_EG_4.json'', WriteFile_err = None,
      range_order = (\<lambda>ps. ps)\<rparr>"
  let ?w2 = "\<lparr>ReadDir = Inr ?entries,
      ReadFile = Inr ''u: https://h/cycle-5/1_EG_5.json'', WriteFile_err = None,
      range_order = rev\<rparr>"
  let ?ps = "[\<lparr>pair.ChainID = ''1'', pair.RewardType = ''EG''\<rparr>]"
  have scan: "scan_entries (cycleDir ?fl) ?entries (0, []) = Inr (5, ?ps)"
    by code_simp
  have c: "clean_urls (rawPrefix ?fl) 5 (range_order ?w ?ps)"
    by code_simp
  have no_old: "\<forall>p\<in>set (range_order ?w ?ps).
      \<not> Contains ''u: https://h/cycle-4/1_EG_4.json'' (cycle_url (rawPrefix ?fl) (5 - 2) p)"
    by code_simp
  have upd: "''u: https://h/cycle-5/1_EG_5.json'' =
      fst (replace_urls (rawPrefix ?fl) 5 (range_order ?w ?ps)
        (''u: https://h/cycle-4/1_EG_4.json'', False))"
    by code_simp
  have first: "rewriter ?fl ?w =
     \<lparr>exit_code = 0, stdout = ''Updated values.yaml via URL string replacement only.'' @ [newline],
      stderr = [], file_ops = [WriteFile ''values.yaml'' ''u: https://h/cycle-5/1_EG_5.json'']\<rparr>"
    by code_simp
  from second_run_no_changes [of ?fl ?w ?entries 5 ?ps "''u: https://h/cycle-4/1_EG_4.json''"
      "''u: https://h/cycle-5/1_EG_5.json''" ?w2, OF _ _ _ scan _ _ _ _ c no_old upd]
  have "rewriter ?fl ?w2 =
     \<lparr>exit_code = 0, stdout = ''No changes made to values.yaml (nothing matched).'' @ [newline],
      stderr = [], file_ops = []\<rparr>"
    by simp
  with first show ?thesis by simp
qed

text \<open>
  The claim as first stated fails: a first run turns an old-cycle URL into the
  previous-cycle URL, which a second run then finds and replaces.
\<close>

theorem second_run_counterexample:
  "rewriter \<lparr>valuesPath = ''values.yaml'', cycleDir = ''cycle-5'', rawPrefix = ''https://h''\<rparr>
     \<lparr>ReadDir = Inr [\<lparr>DirEntry.Name = ''1_eg_5.json'', IsDir = False\<rparr>],
      ReadFile = Inr ''u: https://h/cycle-3/1_EG_3.json'', WriteFile_err = None,
      range_order = (\<lambda>ps. ps)\<rparr> =
     \<lparr>exit_code = 0, stdout = ''Updated values.yaml via URL string replacement only.'' @ [newline],
      stderr = [], file_ops = [WriteFile ''values.yaml'' ''u: https://h/cycle-4/1_EG_4.json'']\<rparr> \<and>
   rewriter \<lparr>valuesPath = ''values.yaml'', cycleDir = ''cycle-5'', rawPrefix = ''https://h''\<rparr>
     \<lparr>ReadDir = Inr [\<lparr>DirEntry.Name = ''1_eg_5.json'', IsDir = False\<rparr>],
      ReadFile = Inr ''u: https://h/cycle-4/1_EG_4.json'', WriteFile_err = None,
      range_order = (\<lambda>ps. ps)\<rparr> =
     \<lparr>exit_code = 0, stdout = ''Updated values.yaml via URL string replacement only.'' @ [newline],
      stderr = [], file_ops = [WriteFile ''values.yaml'' ''u: https://h/cycle-5/1_EG_5.json'']\<rparr>"
  by code_simp

section \<open>Cycle numbers that disagree\<close>

text \<open>
  C3.  The scan uses \<open>cycleNum = 0\<close> for "no cycle number seen yet", so a file of cycle 0
  does not fix the cycle number and a later file of another cycle passes the check.  The
  directory below holds files of cycle 0 and of cycle 5 (in the order \<open>os.ReadDir\<close> returns
  them); the rewriter does not fail, it rewrites the values file.
\<close>

theorem cycle_zero_then_five:
  "rewriter \<lparr>valuesPath = ''values.yaml'', cycleDir = ''cycle-5'', rawPrefix = ''https://h''\<rparr>
     \<lparr>ReadDir = Inr [\<lparr>DirEntry.Name = ''1_A_0.json'', IsDir = False\<rparr>,
                     \<lparr>DirEntry.Name = ''1_A_5.json'', IsDir = False\<rparr>],
      ReadFile = Inr ''u: https://h/cycle-4/1_A_4.json'', WriteFile_err = None,
      range_order = (\<lambda>ps. ps)\<rparr> =
   \<lparr>exit_code = 0, stdout = ''Updated values.yaml via URL string replacement only.'' @ [newline],
    stderr = [], file_ops = [WriteFile ''values.yaml'' ''u: https://h/cycle-5/1_A_5.json'']\<rparr>"
  by code_simp

section \<open>Rows of the query\<close>

lemma fileURL_cases:
  "fileURL q f =
     (case (internal_url f, external_url f) of
        (None, None) \<Rightarrow> Inl (''file entry '' @ q (NotionFile.Name f) @ '' has no downloadable URL'')
      | (Some i, None) \<Rightarrow> Inr i
      | (None, Some e) \<Rightarrow> Inr e
      | (Some i, Some e) \<Rightarrow> if NotionFile.Type f = ''external'' then Inr e else Inr i)"
  by (auto simp: fileURL_def internal_url_def external_url_def split: option.splits)

text \<open>
  C9 (as amended).  On a row that passed the title, chain and type checks, the file
  property decides: when it does not hold exactly one file entry the row is fatal; when
  it holds exactly one, the URL is the external one if the entry's type is \<open>external\<close>
  and it has an external URL, otherwise the internal hosted one if there is one, otherwise
  the external one if there is one, and the row is fatal if it has neither.
\<close>

theorem file_entry_url:
  "(Properties page (propFile fl) = Some fp \<and> PropertyVal.Type fp = ''files'' \<and>
      length (Files fp) \<noteq> 1 \<longrightarrow>
      file_check q fl page =
        Inl (''page '' @ ID page @ '': expected exactly 1 merkle file, got '' @
             itoa (int (length (Files fp))))) \<and>
   (Properties page (propFile fl) = Some fp \<and> PropertyVal.Type fp = ''files'' \<and>
      Files fp = [f] \<longrightarrow>
      file_check q fl page =
        (case (internal_url f, external_url f) of
           (None, None) \<Rightarrow>
             Inl (''page '' @ ID page @ '': file entry '' @ q (NotionFile.Name f) @
                  '' has no downloadable URL'')
         | (Some i, None) \<Rightarrow> Inr i
         | (None, Some e) \<Rightarrow> Inr e
         | (Some i, Some e) \<Rightarrow> if NotionFile.Type f = ''external'' then Inr e else Inr i)) \<and>
   (title_check q fl page = Inr True \<and> chain_check q fl m page = Inr chainID \<and>
      type_check q fl m page = Inr rewardType \<longrightarrow>
      read_page q fl m page =
        (case file_check q fl page of
           Inl err \<Rightarrow> FatalRow err
         | Inr url \<Rightarrow> Row chainID rewardType url))"
proof -
  have a: "file_check q fl page =
        Inl (''page '' @ ID page @ '': expected exactly 1 merkle file, got '' @
             itoa (int (length (Files fp))))"
    if "Properties page (propFile fl) = Some fp" "PropertyVal.Type fp = ''files''"
      "length (Files fp) \<noteq> 1"
    using that by (auto simp: file_check_def split: list.splits)
  have b: "file_check q fl page =
        (case (internal_url f, external_url f) of
           (None, None) \<Rightarrow>
             Inl (''page '' @ ID page @ '': file entry '' @ q (NotionFile.Name f) @
                  '' has no downloadable URL'')
         | (Some i, None) \<Rightarrow> Inr i
         | (None, Some e) \<Rightarrow> Inr e
         | (Some i, Some e) \<Rightarrow> if NotionFile.Type f = ''external'' then Inr e else Inr i)"
    if "Properties page (propFile fl) = Some fp" "PropertyVal.Type fp = ''files''"
      "Files fp = [f]"
    using that by (simp add: file_check_def fileURL_cases split: option.splits)
  have c: "read_page q fl m page =
        (case file_check q fl page of
           Inl err \<Rightarrow> FatalRow err
         | Inr url \<Rightarrow> Row chainID rewardType url)"
    if "title_check q fl page = Inr True" "chain_check q fl m page = Inr chainID"
      "type_check q fl m page = Inr rewardType"
    using that by (simp add: read_page_def)
  from a b c show ?thesis by blast
qed

theorem file_entry_url_witness:
  "file_check quote example_flags
     (example_page ''p1'' ''Rewards Cycle 5'' ''Ethereum''
        [example_file ''https://f/1'', example_file ''https://f/2'']) =
     Inl ''page p1: expected exactly 1 merkle file, got 2'' \<and>
   file_check quote example_flags
     (example_page ''p2'' ''Rewards Cycle 5'' ''Ethereum''
        [\<lparr>NotionFile.Name = ''merkle.json'', Type = ''file'', File = Some ''https://int'',
          External = Some ''https://ext''\<rparr>]) = Inr ''https://int'' \<and>
   read_page quote example_flags example_mapping
     (example_page ''p3'' ''Rewards Cycle 5'' ''BSC''
        [\<lparr>NotionFile.Name = ''merkle.json'', Type = ''external'', File = None,
          External = Some ''https://ext''\<rparr>]) = Row ''56'' ''EG'' ''https://ext''"
proof -
  let ?two = "[example_file ''https://f/1'', example_file ''https://f/2'']"
  let ?f2 = "\<lparr>NotionFile.Name = ''merkle.json'', Type = ''file'', File = Some ''https://int'',
          External = Some ''https://ext''\<rparr>"
  let ?f3 = "\<lparr>NotionFile.Name = ''merkle.json'', Type = ''external'', File = None,
          External = Some ''https://ext''\<rparr>"
  let ?p1 = "example_page ''p1'' ''Rewards Cycle 5'' ''Ethereum'' ?two"
  let ?p2 = "example_page ''p2'' ''Rewards Cycle 5'' ''Ethereum'' [?f2]"
  let ?p3 = "example_page ''p3'' ''Rewards Cycle 5'' ''BSC'' [?f3]"
  let ?fp = "\<lambda>fs. example_property\<lparr>PropertyVal.Type := ''files'', Files := fs\<rparr>"
  have h1: "Properties ?p1 (propFile example_flags) = Some (?fp ?two)"
    "PropertyVal.Type (?fp ?two) = ''files''" "length (Files (?fp ?two)) \<noteq> 1"
    by code_simp+
  have e1: "''page '' @ ID ?p1 @ '': expected exactly 1 merkle file, got '' @
       itoa (int (length (Files (?fp ?two)))) = ''page p1: expected exactly 1 merkle file, got 2''"
    by code_simp
  have h2: "Properties ?p2 (propFile example_flags) = Some (?fp [?f2])"
    "PropertyVal.Type (?fp [?f2]) = ''files''" "Files (?fp [?f2]) = [?f2]"
    by code_simp+
  have e2: "(case (internal_url ?f2, external_url ?f2) of
           (None, None) \<Rightarrow>
             Inl (''page '' @ ID ?p2 @ '': file entry '' @ quote (NotionFile.Name ?f2) @
                  '' has no downloadable URL'')
         | (Some i, None) \<Rightarrow> Inr i
         | (None, Some e) \<Rightarrow> Inr e
         | (Some i, Some e) \<Rightarrow> if NotionFile.Type ?f2 = ''external'' then Inr e else Inr i) =
       Inr ''https://int''"
    by code_simp
  have h3: "title_check quote example_flags ?p3 = Inr True"
    "chain_check quote example_flags example_mapping ?p3 = Inr ''56''"
    "type_check quote example_flags example_mapping ?p3 = Inr ''EG''"
    by code_simp+
  have e3: "(case file_check quote example_flags ?p3 of
           Inl err \<Rightarrow> FatalRow err
         | Inr url \<Rightarrow> Row ''56'' ''EG'' url) = Row ''56'' ''EG'' ''https://ext''"
    by code_simp
  from file_entry_url [where page = ?p1 and fl = example_flags and fp = "?fp ?two" and q = quote]
    h1
  have a: "file_check quote example_flags ?p1 =
      Inl (''page '' @ ID ?p1 @ '': expected exactly 1 merkle file, got '' @
           itoa (int (length (Files (?fp ?two)))))"
    by blast
  from file_entry_url [where page = ?p2 and fl = example_flags and fp = "?fp [?f2]" and q = quote
      and f = ?f2] h2
  have b: "file_check quote example_flags ?p2 =
      (case (internal_url ?f2, external_url ?f2) of
           (None, None) \<Rightarrow>
             Inl (''page '' @ ID ?p2 @ '': file entry '' @ quote (NotionFile.Name ?f2) @
                  '' has no downloadable URL'')
         | (Some i, None) \<Rightarrow> Inr i
         | (None, Some e) \<Rightarrow> Inr e
         | (Some i, Some e) \<Rightarrow> if NotionFile.Type ?f2 = ''external'' then Inr e else Inr i)"
    by blast
  from file_entry_url [where page = ?p3 and fl = example_flags and q = quote
      and m = example_mapping and chainID = "''56''" and rewardType = "''EG''"] h3
  have c: "read_page quote example_flags example_mapping ?p3 =
      (case file_check quote example_flags ?p3 of
           Inl err \<Rightarrow> FatalRow err
         | Inr url \<Rightarrow> Row ''56'' ''EG'' url)"
    by blast
  from a e1 b e2 c e3 show ?thesis by (simp only:)
qed

text \<open>
  The claim as first stated fails: the entry below has an internal hosted URL, and its
  external URL is taken, since its type is \<open>external\<close>.
\<close>

theorem file_type_tag_counterexample:
  "internal_url \<lparr>NotionFile.Name = ''merkle.json'', Type = ''external'',
      File = Some ''https://int'', External = Some ''https://ext''\<rparr> = Some ''https://int'' \<and>
   fileURL quote \<lparr>NotionFile.Name = ''merkle.json'', Type = ''external'',
      File = Some ''https://int'', External = Some ''https://ext''\<rparr> = Inr ''https://ext'' \<and>
   read_page quote example_flags example_mapping
     (example_page ''p1'' ''Rewards Cycle 5'' ''Ethereum''
        [\<lparr>NotionFile.Name = ''merkle.json'', Type = ''external'',
          File = Some ''https://int'', External = Some ''https://ext''\<rparr>]) =
     Row ''1'' ''EG'' ''https://ext''"
  by code_simp

text \<open>
  C10.  A row whose title property is missing or not of the kind \<open>title\<close> is a fatal
  error, and no later row is processed.  A row whose title property is present and of the
  kind \<open>title\<close>, but whose title text does not contain \<open>Cycle N\<close>, is skipped: no
  error, the state (and so the list of items) as it was, and the loop goes on.
\<close>

theorem title_gate:
  "(Properties page (propTitle fl) = None \<or>
    (\<exists>tp. Properties page (propTitle fl) = Some tp \<and> PropertyVal.Type tp \<noteq> ''title'') \<longrightarrow>
      read_page q fl m page =
        FatalRow (''page '' @ ID page @ '': missing/invalid title property '' @ q (propTitle fl)) \<and>
      process_pages q fl m (page # pages) st =
        Inl (''page '' @ ID page @ '': missing/invalid title property '' @ q (propTitle fl))) \<and>
   (Properties page (propTitle fl) = Some tp \<and> PropertyVal.Type tp = ''title'' \<and>
    \<not> Contains (titleText tp) (''Cycle '' @ itoa (cycle fl)) \<longrightarrow>
      read_page q fl m page = SkipRow \<and>
      process_page q fl m page st = Inr st \<and>
      process_pages q fl m (page # pages) st = process_pages q fl m pages st)"
  by (auto simp: read_page_def process_page_def title_check_def)

theorem title_gate_witness:
  "process_pages quote example_flags example_mapping
     [\<lparr>ID = ''p0'', Properties = Map.empty\<rparr>,
      example_page ''p1'' ''Rewards Cycle 5'' ''Ethereum'' [example_file ''https://f/1'']] no_rows =
     Inl (''page p0: missing/invalid title property '' @ quote ''Task name'') \<and>
   read_page quote example_flags example_mapping
     (example_page ''p2'' ''Rewards Cycle 4'' ''Ethereum'' [example_file ''https://f/1'']) = SkipRow \<and>
   process_pages quote example_flags example_mapping
     [example_page ''p2'' ''Rewards Cycle 4'' ''Ethereum'' [example_file ''https://f/1'']] no_rows =
     Inr no_rows"
proof -
  let ?p0 = "\<lparr>ID = ''p0'', Properties = Map.empty\<rparr>"
  let ?p1 = "example_page ''p1'' ''Rewards Cycle 5'' ''Ethereum'' [example_file ''https://f/1'']"
  let ?p2 = "example_page ''p2'' ''Rewards Cycle 4'' ''Ethereum'' [example_file ''https://f/1'']"
  let ?tp = "example_property\<lparr>PropertyVal.Type := ''title'',
      Title := RawArray [\<lparr>PlainText = ''Rewards Cycle 4'', Content = ''Rewards Cycle 4''\<rparr>]\<rparr>"
  have h0: "Properties ?p0 (propTitle example_flags) = None"
    by simp
  have e0: "''page '' @ ID ?p0 @ '': missing/invalid title property '' @
      quote (propTitle example_flags) =
      ''page p0: missing/invalid title property '' @ quote ''Task name''"
    by code_simp
  have h2: "Properties ?p2 (propTitle example_flags) = Some ?tp"
    "PropertyVal.Type ?tp = ''title''"
    "\<not> Contains (titleText ?tp) (''Cycle '' @ itoa (cycle example_flags))"
    by code_simp+
  from title_gate [where page = ?p0 and fl = example_flags and q = quote and m = example_mapping
      and pages = "[?p1]" and st = no_rows] h0
  have "process_pages quote example_flags example_mapping [?p0, ?p1] no_rows =
      Inl (''page '' @ ID ?p0 @ '': missing/invalid title property '' @
           quote (propTitle example_flags))"
    by blast
  then have a: "process_pages quote example_flags example_mapping [?p0, ?p1] no_rows =
      Inl (''page p0: missing/invalid title property '' @ quote ''Task name'')"
    unfolding e0 .
  from title_gate [where page = ?p2 and fl = example_flags and q = quote and m = example_mapping
      and pages = "[]" and st = no_rows and tp = ?tp] h2
  have b: "read_page quote example_flags example_mapping ?p2 = SkipRow"
    and c: "process_pages quote example_flags example_mapping [?p2] no_rows =
      process_pages quote example_flags example_mapping [] no_rows"
    by blast+
  have d: "process_pages quote example_flags example_mapping [] no_rows = Inr no_rows"
    by simp
  from a b c d show ?thesis by (simp only:)
qed

section \<open>No pair twice\<close>

lemma consistent_no_rows: "consistent no_rows"
  by (simp add: consistent_def no_rows_def)

lemma process_page_consistent:
  "consistent st \<Longrightarrow> process_page q fl m page st = Inr st' \<Longrightarrow> consistent st'"
  by (auto simp: process_page_def consistent_def split: row.splits if_splits)

lemma process_pages_consistent:
  "consistent st \<Longrightarrow> process_pages q fl m pages st = Inr st' \<Longrightarrow> consistent st'"
proof (induction pages arbitrary: st)
  case Nil
  then show ?case by simp
next
  case (Cons page pages)
  then show ?case
    by (auto split: sum.splits dest: process_page_consistent)
qed

lemma query_loop_consistent:
  "consistent st \<Longrightarrow> query_loop q fl m xs st = Some (Inr st') \<Longrightarrow> consistent st'"
proof (induction xs arbitrary: st)
  case Nil
  then show ?case by simp
next
  case (Cons x xs)
  then show ?case
    by (auto split: sum.splits if_splits dest: process_pages_consistent)
qed





section \<open>The completeness check\<close>

lemma file_ops_fatal: "file_ops (fatal err) = []"
  by (simp add: fatal_def)

lemma fetcher_reaches_enumeration:
  assumes "fetcher fl w = Some r" "file_ops r \<noteq> []"
  shows "\<exists>m st. ReadFile_mapping w = Inr (Inr m) \<and>
     query_loop (Quote w) fl m (queries w) no_rows = Some (Inr st) \<and>
     r = after_enumeration fl w m st"
  using assms
  by (auto simp: fetcher_def no_rows_def file_ops_fatal
      split: if_splits sum.splits option.splits)

lemma after_enumeration_ops:
  assumes "file_ops (after_enumeration fl w m st) \<noteq> []"
  shows "items st \<noteq> [] \<and> (\<forall>(name, cid)\<in>set (Chains m). cid \<in> set (seenChains st))"
proof -
  from assms have i: "items st \<noteq> []"
    by (auto simp: after_enumeration_def Let_def file_ops_fatal split: if_splits)
  with assms have "find (\<lambda>(name, cid). cid \<notin> set (seenChains st)) (Chains m) = None"
    by (auto simp: after_enumeration_def Let_def file_ops_fatal split: option.splits)
  then have "\<forall>(name, cid)\<in>set (Chains m). cid \<in> set (seenChains st)"
    by (auto simp: find_None_iff)
  with i show ?thesis by simp
qed

lemma after_enumeration_missing:
  assumes "(name, cid) \<in> set (Chains m)" "cid \<notin> set (seenChains st)" "items st \<noteq> []"
  shows "\<exists>name' cid'. (name', cid') \<in> set (Chains m) \<and> cid' \<notin> set (seenChains st) \<and>
     after_enumeration fl w m st =
       fatal (''no merkle files found for chain '' @ Quote w name' @ '' (id '' @ cid' @
              '') in Cycle '' @ itoa (cycle fl))"
proof -
  let ?P = "\<lambda>(name, cid). cid \<notin> set (seenChains st)"
  from assms(1,2) have "\<exists>x\<in>set (Chains m). ?P x" by force
  then obtain x where f: "find ?P (Chains m) = Some x"
    by (cases "find ?P (Chains m)") (auto simp: find_None_iff)
  obtain name' cid' where x: "x = (name', cid')" by (cases x) auto
  from find_SomeD [OF f] x have "(name', cid') \<in> set (Chains m)" "cid' \<notin> set (seenChains st)"
    by auto
  moreover have "after_enumeration fl w m st =
       fatal (''no merkle files found for chain '' @ Quote w name' @ '' (id '' @ cid' @
              '') in Cycle '' @ itoa (cycle fl))"
    using f x assms(3) by (simp add: after_enumeration_def)
  ultimately show ?thesis by blast
qed

text \<open>
  C8 (as amended).  After the enumeration, when a chain of the mapping's table is not among
  the chains seen, the fetcher fails with exit code 1 and has done no file operation: with
  the no-rows error when no row was accumulated at all, and with the missing-chain error
  of some chain that is not represented otherwise.  The chains seen are the chains of the
  accumulated items.  Whenever a run of the fetcher does any file operation (creating the
  directory included), the enumeration has ended, at least one row was accumulated and
  every chain of the mapping is the chain of an accumulated item.
\<close>

theorem completeness_check:
  "((name, cid) \<in> set (Chains m) \<and> cid \<notin> set (seenChains st) \<longrightarrow>
      exit_code (after_enumeration fl w m st) = 1 \<and>
      file_ops (after_enumeration fl w m st) = [] \<and>
      (items st = [] \<longrightarrow>
         after_enumeration fl w m st =
           fatal (''no matching Notion rows found for Cycle '' @ itoa (cycle fl))) \<and>
      (items st \<noteq> [] \<longrightarrow>
         (\<exists>name' cid'. (name', cid') \<in> set (Chains m) \<and> cid' \<notin> set (seenChains st) \<and>
            after_enumeration fl w m st =
              fatal (''no merkle files found for chain '' @ Quote w name' @ '' (id '' @ cid' @
                     '') in Cycle '' @ itoa (cycle fl))))) \<and>
   (query_loop q fl m xs no_rows = Some (Inr st') \<longrightarrow>
      set (seenChains st') = downloadItem.ChainID ` set (items st')) \<and>
   (fetcher fl w = Some r \<and> file_ops r \<noteq> [] \<longrightarrow>
      (\<exists>m' st''. ReadFile_mapping w = Inr (Inr m') \<and>
         query_loop (Quote w) fl m' (queries w) no_rows = Some (Inr st'') \<and>
         r = after_enumeration fl w m' st'' \<and> items st'' \<noteq> [] \<and>
         (\<forall>(name, cid)\<in>set (Chains m').
            \<exists>it\<in>set (items st''). downloadItem.ChainID it = cid)))"
proof -
  have a: "exit_code (after_enumeration fl w m st) = 1 \<and>
      file_ops (after_enumeration fl w m st) = [] \<and>
      (items st = [] \<longrightarrow>
         after_enumeration fl w m st =
           fatal (''no matching Notion rows found for Cycle '' @ itoa (cycle fl))) \<and>
      (items st \<noteq> [] \<longrightarrow>
         (\<exists>name' cid'. (name', cid') \<in> set (Chains m) \<and> cid' \<notin> set (seenChains st) \<and>
            after_enumeration fl w m st =
              fatal (''no merkle files found for chain '' @ Quote w name' @ '' (id '' @ cid' @
                     '') in Cycle '' @ itoa (cycle fl))))"
    if miss: "(name, cid) \<in> set (Chains m)" "cid \<notin> set (seenChains st)"
  proof (cases "items st = []")
    case True
    then have "after_enumeration fl w m st =
        fatal (''no matching Notion rows found for Cycle '' @ itoa (cycle fl))"
      by (simp add: after_enumeration_def)
    with True show ?thesis by (simp add: fatal_def)
  next
    case False
    from after_enumeration_missing [OF miss False, of fl w]
    show ?thesis using False by (auto simp: fatal_def)
  qed
  have b: "set (seenChains st') = downloadItem.ChainID ` set (items st')"
    if "query_loop q fl m xs no_rows = Some (Inr st')"
    using query_loop_consistent [OF consistent_no_rows that] by (simp add: consistent_def)
  have c: "\<exists>m' st''. ReadFile_mapping w = Inr (Inr m') \<and>
         query_loop (Quote w) fl m' (queries w) no_rows = Some (Inr st'') \<and>
         r = after_enumeration fl w m' st'' \<and> items st'' \<noteq> [] \<and>
         (\<forall>(name, cid)\<in>set (Chains m').
            \<exists>it\<in>set (items st''). downloadItem.ChainID it = cid)"
    if "fetcher fl w = Some r" "file_ops r \<noteq> []"
  proof -
    from fetcher_reaches_enumeration [OF that] obtain m' st'' where
      m: "ReadFile_mapping w = Inr (Inr m')"
      and q: "query_loop (Quote w) fl m' (queries w) no_rows = Some (Inr st'')"
      and r: "r = after_enumeration fl w m' st''"
      by blast
    from after_enumeration_ops [of fl w m' st''] that(2) r
    have ops: "items st'' \<noteq> []" "\<forall>(name, cid)\<in>set (Chains m'). cid \<in> set (seenChains st'')"
      by auto
    have "set (seenChains st'') = downloadItem.ChainID ` set (items st'')"
      using query_loop_consistent [OF consistent_no_rows q] by (simp add: consistent_def)
    with ops(2) have "\<forall>(name, cid)\<in>set (Chains m').
        \<exists>it\<in>set (items st''). downloadItem.ChainID it = cid"
      by fastforce
    with m q r ops(1) show ?thesis by blast
  qed
  from a b c show ?thesis by blast
qed

theorem completeness_check_witness:
  "(\<exists>name' cid'. (name', cid') \<in> set (Chains example_mapping) \<and> cid' \<notin> set [''1''] \<and>
      after_enumeration example_flags
        (example_world (Response 200 ''200 OK'' [] (Inr [(''ds'', ''rewards'')])) [])
        example_mapping
        \<lparr>seen = [''1:EG''], seenChains = [''1''],
         items = [\<lparr>downloadItem.ChainID = ''1'', RewardType = ''EG'', PageID = ''p1'',
                   SourceURL = ''https://f/1''\<rparr>]\<rparr> =
      fatal (''no merkle files found for chain '' @ quote name' @ '' (id '' @ cid' @
             '') in Cycle '' @ itoa 5)) \<and>
   (\<exists>m' st''.
      query_loop quote example_flags m'
        [Response 200 ''200 OK'' []
           (Inr \<lparr>Results =
                   [example_page ''p1'' ''Rewards Cycle 5'' ''Ethereum'' [example_file ''https://f/1''],
                    example_page ''p2'' ''Rewards Cycle 5'' ''BSC'' [example_file ''https://f/2'']],
                 HasMore = False, NextCursor = []\<rparr>)] no_rows = Some (Inr st'') \<and>
      items st'' \<noteq> [] \<and>
      (\<forall>(name, cid)\<in>set (Chains m'). \<exists>it\<in>set (items st''). downloadItem.ChainID it = cid))"
proof -
  let ?db = "Response 200 ''200 OK'' [] (Inr [(''ds'', ''rewards'')])"
  let ?it = "\<lparr>downloadItem.ChainID = ''1'', RewardType = ''EG'', PageID = ''p1'',
       SourceURL = ''https://f/1''\<rparr>"
  let ?st = "\<lparr>seen = [''1:EG''], seenChains = [''1''], items = [?it]\<rparr>"
  let ?pages = "[example_page ''p1'' ''Rewards Cycle 5'' ''Ethereum'' [example_file ''https://f/1''],
                 example_page ''p2'' ''Rewards Cycle 5'' ''BSC'' [example_file ''https://f/2'']]"
  let ?w = "example_world ?db ?pages"
  let ?r = "\<lparr>exit_code = 0, stdout = ''Downloaded 2 files into cycle-5'' @ [newline],
     stderr = [],
     file_ops =
       [MkdirAll ''cycle-5'', Create ''cycle-5/1_EG_5.json.tmp'',
        Copy ''cycle-5/1_EG_5.json.tmp'' ''{}'',
        Rename ''cycle-5/1_EG_5.json.tmp'' ''cycle-5/1_EG_5.json'',
        Create ''cycle-5/56_EG_5.json.tmp'',
        Copy ''cycle-5/56_EG_5.json.tmp'' ''{}'',
        Rename ''cycle-5/56_EG_5.json.tmp'' ''cycle-5/56_EG_5.json'']\<rparr>"
  have h1: "(''BSC'', ''56'') \<in> set (Chains example_mapping)" "''56'' \<notin> set (seenChains ?st)"
    "items ?st \<noteq> []"
    by (simp_all add: example_mapping_def)
  have e: "seenChains ?st = [''1'']" "cycle example_flags = 5"
    "Quote (example_world ?db []) = quote"
    by (simp_all add: example_flags_def example_world_def)
  have run: "fetcher example_flags ?w = Some ?r"
    by code_simp
  have ops: "file_ops ?r \<noteq> []"
    by simp
  have w: "Quote ?w = quote"
    "queries ?w = [Response 200 ''200 OK'' []
       (Inr \<lparr>Results = ?pages, HasMore = False, NextCursor = []\<rparr>)]"
    by (simp_all add: example_world_def)
  from completeness_check [where name = "''BSC''" and cid = "''56''" and m = example_mapping
      and st = ?st and fl = example_flags and w = "example_world ?db []"] h1
  have a: "\<exists>name' cid'. (name', cid') \<in> set (Chains example_mapping) \<and>
      cid' \<notin> set (seenChains ?st) \<and>
      after_enumeration example_flags (example_world ?db []) example_mapping ?st =
        fatal (''no merkle files found for chain '' @ Quote (example_world ?db []) name' @
               '' (id '' @ cid' @ '') in Cycle '' @ itoa (cycle example_flags))"
    by blast
  from completeness_check [where fl = example_flags and w = ?w and r = ?r] run ops
  have b: "\<exists>m' st''. ReadFile_mapping ?w = Inr (Inr m') \<and>
         query_loop (Quote ?w) example_flags m' (queries ?w) no_rows = Some (Inr st'') \<and>
         ?r = after_enumeration example_flags ?w m' st'' \<and> items st'' \<noteq> [] \<and>
         (\<forall>(name, cid)\<in>set (Chains m').
            \<exists>it\<in>set (items st''). downloadItem.ChainID it = cid)"
    by blast
  from a have a': "\<exists>name' cid'. (name', cid') \<in> set (Chains example_mapping) \<and>
      cid' \<notin> set [''1''] \<and>
      after_enumeration example_flags (example_world ?db []) example_mapping ?st =
        fatal (''no merkle files found for chain '' @ quote name' @
               '' (id '' @ cid' @ '') in Cycle '' @ itoa 5)"
    unfolding e .
  from b have b': "\<exists>m' st''.
      query_loop quote example_flags m'
        [Response 200 ''200 OK'' [] (Inr \<lparr>Results = ?pages, HasMore = False, NextCursor = []\<rparr>)]
        no_rows = Some (Inr st'') \<and>
      items st'' \<noteq> [] \<and>
      (\<forall>(name, cid)\<in>set (Chains m'). \<exists>it\<in>set (items st''). downloadItem.ChainID it = cid)"
    unfolding w by blast
  from a' b' show ?thesis by blast
qed

text \<open>
  The claim as first stated fails when no row was accumulated: the chains of the mapping
  are not represented, and the error is the no-rows error, not a missing-chain error.
\<close>

theorem no_rows_counterexample:
  "(''Ethereum'', ''1'') \<in> set (Chains example_mapping) \<and>
   fetcher example_flags
     (example_world (Response 200 ''200 OK'' [] (Inr [(''ds'', ''rewards'')])) []) =
     Some \<lparr>exit_code = 1, stdout = [],
       stderr = ''ERROR: no matching Notion rows found for Cycle 5'' @ [newline],
       file_ops = []\<rparr>"
  by code_simp

section \<open>Exit codes\<close>










section \<open>The generated URLs of an \<open>https\<close> prefix\<close>

subsection \<open>Decimal digits\<close>

lemma digit_table:
  "list_all (\<lambda>k. is_digit (''0123456789'' ! k) \<and> digit_val (''0123456789'' ! k) = int k) [0..<10]"
  by code_simp

lemma digit_nth: "k < 10 \<Longrightarrow> is_digit (''0123456789'' ! k) \<and> digit_val (''0123456789'' ! k) = int k"
  using digit_table by (simp add: list_all_iff)

lemma nat_digits_digits: "list_all is_digit (nat_digits n)"
proof (induction n rule: nat_digits.induct)
  case (1 n)
  show ?case
  proof (cases "n < 10")
    case True
    then show ?thesis using digit_nth [of n] by (subst nat_digits.simps) simp
  next
    case False
    then have "list_all is_digit (nat_digits (n div 10))" using 1 by simp
    moreover have "is_digit (''0123456789'' ! (n mod 10))" using digit_nth [of "n mod 10"] by simp
    ultimately show ?thesis using False by (subst nat_digits.simps) simp
  qed
qed

lemma nat_digits_nonempty: "nat_digits n \<noteq> []"
  by (subst nat_digits.simps) simp

lemma decimal_value_snoc: "decimal_value (xs @ [c]) = 10 * decimal_value xs + digit_val c"
  by (simp add: decimal_value_def)

lemma decimal_value_nat_digits: "decimal_value (nat_digits n) = int n"
proof (induction n rule: nat_digits.induct)
  case (1 n)
  show ?case
  proof (cases "n < 10")
    case True
    then have "nat_digits n = [''0123456789'' ! n]" by (subst nat_digits.simps) simp
    then show ?thesis using digit_nth [of n] True by (simp add: decimal_value_def)
  next
    case False
    then have "nat_digits n = nat_digits (n div 10) @ [''0123456789'' ! (n mod 10)]"
      by (subst nat_digits.simps) simp
    moreover have "decimal_value (nat_digits (n div 10)) = int (n div 10)" using 1 False by simp
    moreover have "digit_val (''0123456789'' ! (n mod 10)) = int (n mod 10)"
      using digit_nth [of "n mod 10"] by simp
    ultimately show ?thesis by (simp add: decimal_value_snoc zdiv_int zmod_int)
  qed
qed

lemma itoa_digits: "0 \<le> k \<Longrightarrow> list_all is_digit (itoa k) \<and> itoa k \<noteq> []"
  by (simp add: itoa_def nat_digits_digits nat_digits_nonempty)

lemma itoa_inj: "0 \<le> k \<Longrightarrow> 0 \<le> k' \<Longrightarrow> itoa k = itoa k' \<Longrightarrow> k = k'"
proof -
  assume k: "0 \<le> k" "0 \<le> k'" and eq: "itoa k = itoa k'"
  then have "decimal_value (nat_digits (nat k)) = decimal_value (nat_digits (nat k'))"
    by (simp add: itoa_def)
  then show ?thesis using k by (simp add: decimal_value_nat_digits)
qed

subsection \<open>The shape of a generated URL\<close>

lemma run_then_separator:
  assumes "list_all P a" "list_all P a'" "\<not> P s"
  shows "prefix (a @ s # r) (a' @ s # r') \<Longrightarrow> a = a' \<and> prefix r r'"
  using assms(1,2)
proof (induction a arbitrary: a')
  case Nil
  then show ?case using assms(3) by (cases a') auto
next
  case (Cons c a)
  then show ?case using assms(3) by (cases a') auto
qed

lemma digit_not_slash: "\<not> is_digit CHR ''/''"
  by (simp add: is_digit_def)

lemma cycle_url_prefix:
  assumes "0 \<le> k" "0 \<le> k'" "filename_pair p" "filename_pair p'"
    and pre: "prefix (cycle_url pfx k p) (cycle_url pfx k' p')"
  shows "k = k' \<and> p = p'"
proof -
  let ?r2 = "\<lambda>k p. pair.RewardType p @ CHR ''_'' # itoa k @ ''.json''"
  let ?r1 = "\<lambda>k p. pair.ChainID p @ CHR ''_'' # ?r2 k p"
  from pre have p0: "prefix (itoa k @ CHR ''/'' # ?r1 k p) (itoa k' @ CHR ''/'' # ?r1 k' p')"
    by (simp add: cycle_url_def)
  have dk: "list_all is_digit (itoa k)" "list_all is_digit (itoa k')"
    using assms(1,2) itoa_digits by blast+
  from run_then_separator [of is_digit "itoa k" "itoa k'" "CHR ''/''" "?r1 k p" "?r1 k' p'"]
    dk digit_not_slash p0
  have k: "itoa k = itoa k'" and p1: "prefix (?r1 k p) (?r1 k' p')"
    by blast+
  have dc: "list_all is_digit (pair.ChainID p)" "list_all is_digit (pair.ChainID p')"
    and dt: "list_all is_letter (pair.RewardType p)" "list_all is_letter (pair.RewardType p')"
    using assms(3,4) by (simp_all add: filename_pair_def)
  from run_then_separator [of is_digit "pair.ChainID p" "pair.ChainID p'" "CHR ''_''"
      "?r2 k p" "?r2 k' p'"] dc not_digit_underscore p1
  have c: "pair.ChainID p = pair.ChainID p'" and p2: "prefix (?r2 k p) (?r2 k' p')"
    by blast+
  from run_then_separator [of is_letter "pair.RewardType p" "pair.RewardType p'" "CHR ''_''"
      "itoa k @ ''.json''" "itoa k' @ ''.json''"] dt not_letter_underscore p2
  have t: "pair.RewardType p = pair.RewardType p'"
    by blast
  from assms(1,2) k have "k = k'" by (rule itoa_inj)
  moreover from c t have "p = p'" by simp
  ultimately show ?thesis by simp
qed

lemma digit_not_colon: "is_digit c \<Longrightarrow> c \<noteq> CHR '':''"
  by (auto simp: is_digit_def)

lemma letter_not_colon: "is_letter c \<Longrightarrow> c \<noteq> CHR '':''"
  by (auto simp: is_letter_def)

lemma cycle_url_shape:
  assumes "https_prefix pfx" "0 \<le> k" "filename_pair p"
  shows "\<exists>t. cycle_url pfx k p = ''https:'' @ t \<and> CHR '':'' \<notin> set t \<and> t \<noteq> [] \<and>
     last t = CHR ''n''"
proof -
  let ?tail = "''/cycle-'' @ itoa k @ ''/'' @ pair.ChainID p @ ''_'' @ pair.RewardType p @ ''_'' @
      itoa k @ ''.json''"
  let ?t = "drop 6 pfx @ ?tail"
  have "take 6 pfx = ''https:''" using assms(1) by (simp add: https_prefix_def)
  then have "''https:'' @ drop 6 pfx = pfx" by (metis append_take_drop_id)
  then have "cycle_url pfx k p = (''https:'' @ drop 6 pfx) @ ?tail"
    unfolding cycle_url_def by simp
  then have a: "cycle_url pfx k p = ''https:'' @ ?t" by simp
  have "CHR '':'' \<notin> set (itoa k)"
    using itoa_digits [OF assms(2)] digit_not_colon by (auto simp: list_all_iff)
  moreover have "CHR '':'' \<notin> set (pair.ChainID p)" "CHR '':'' \<notin> set (pair.RewardType p)"
    using assms(3) digit_not_colon letter_not_colon by (auto simp: filename_pair_def list_all_iff)
  ultimately have b: "CHR '':'' \<notin> set ?t"
    using assms(1) by (simp add: https_prefix_def)
  have c: "?t \<noteq> []" by simp
  have "?t = (drop 6 pfx @ ''/cycle-'' @ itoa k @ ''/'' @ pair.ChainID p @ ''_'' @
      pair.RewardType p @ ''_'' @ itoa k @ ''.jso'') @ [CHR ''n'']"
    by simp
  then have d: "last ?t = CHR ''n''" by (metis last_snoc)
  from a b c d show ?thesis by blast
qed

lemma drop_long: "n \<le> length a \<Longrightarrow> drop n (a @ b) = drop n a @ b"
  by simp

lemma take_short: "n \<le> length a \<Longrightarrow> take n (a @ b) = take n a"
  by simp

lemma colon_position:
  assumes "x @ ''https:'' @ z = ''https:'' @ t" "x \<noteq> []"
  shows "CHR '':'' \<in> set t"
proof -
  have "6 \<le> length (x @ ''https'')" using assms(2) by (cases x) auto
  then have "drop 6 ((x @ ''https'') @ CHR '':'' # z) = drop 6 (x @ ''https'') @ CHR '':'' # z"
    by (rule drop_long)
  moreover have "drop 6 (''https:'' @ t) = t" by simp
  moreover have "(x @ ''https'') @ CHR '':'' # z = ''https:'' @ t" using assms(1) by simp
  ultimately have "t = drop 6 (x @ ''https'') @ CHR '':'' # z" by metis
  then show ?thesis by (metis in_set_conv_decomp)
qed

lemma https_no_overlap:
  assumes u: "u = ''https:'' @ t" "CHR '':'' \<notin> set t" "t \<noteq> []" "last t = CHR ''n''"
    and v: "v = ''https:'' @ t'"
    and split: "u = x @ w" "x \<noteq> []" "w \<noteq> []"
  shows "\<not> prefix w v \<and> \<not> prefix v w"
proof -
  have "last u = CHR ''n''" using u(1,3,4) by simp
  then have lastw: "last w = CHR ''n''" using split(1,3) by simp
  have inner: False if "w = ''https:'' @ z" for z
  proof -
    have "x @ ''https:'' @ z = ''https:'' @ t" using that split(1) u(1) by simp
    from colon_position [OF this split(2)] u(2) show False by simp
  qed
  have a: False if "prefix v w"
  proof -
    from that v obtain y where "w = ''https:'' @ (t' @ y)" by (auto simp: prefix_def)
    then show False by (rule inner)
  qed
  have b: False if p: "prefix w v"
  proof -
    from p obtain zs where zs: "v = w @ zs" by (auto simp: prefix_def)
    show False
    proof (cases "6 \<le> length w")
      case True
      have "take 6 v = ''https:''" using v by simp
      moreover have "take 6 v = take 6 w" using zs True by simp
      ultimately have "w = ''https:'' @ drop 6 w" by (metis append_take_drop_id)
      then show False by (rule inner)
    next
      case False
      have "length w \<le> length ''https''" using False by simp
      then have "take (length w) (''https'' @ CHR '':'' # t') = take (length w) ''https''"
        by (rule take_short)
      moreover have "v = ''https'' @ CHR '':'' # t'" using v by simp
      moreover have "w = take (length w) v" using zs by simp
      ultimately have "w = take (length w) ''https''" by metis
      then have "prefix w ''https''" by (metis take_is_prefix)
      then have "set w \<subseteq> set ''https''" by (rule set_mono_prefix)
      moreover have "last w \<in> set w" using split(3) by simp
      ultimately show False using lastw by auto
    qed
  qed
  from a b show ?thesis by blast
qed

subsection \<open>Pairs of a cycle directory\<close>

lemma url_family_iff:
  "u \<in> set (url_family pfx N ps) \<longleftrightarrow>
     (\<exists>p\<in>set ps. u = cycle_url pfx (N - 2) p \<or> u = cycle_url pfx (N - 1) p \<or>
        u = cycle_url pfx N p)"
  by (auto simp: url_family_def)

lemma cycle_url_inj:
  assumes "0 \<le> k" "0 \<le> k'" "filename_pair p" "filename_pair p'"
    "cycle_url pfx k p = cycle_url pfx k' p'"
  shows "k = k' \<and> p = p'"
  using cycle_url_prefix [OF assms(1-4), of pfx] assms(5) by simp

lemma https_family_overlap_free:
  assumes pfx: "https_prefix pfx" and N: "2 \<le> N" and ps: "\<forall>p\<in>set ps. filename_pair p"
  shows "overlap_free (url_family pfx N ps)"
proof -
  have member: "\<exists>k p. 0 \<le> k \<and> filename_pair p \<and> u = cycle_url pfx k p"
    if "u \<in> set (url_family pfx N ps)" for u
  proof -
    from that obtain p where p: "p \<in> set ps"
      "u = cycle_url pfx (N - 2) p \<or> u = cycle_url pfx (N - 1) p \<or> u = cycle_url pfx N p"
      by (auto simp: url_family_iff)
    with N ps have "filename_pair p" "0 \<le> N - 2" "0 \<le> N - 1" "0 \<le> N" by auto
    with p(2) show ?thesis by blast
  qed
  have "u \<noteq> [] \<and> no_overlap u v"
    if u: "u \<in> set (url_family pfx N ps)" and v: "v \<in> set (url_family pfx N ps)" for u v
  proof -
    from member [OF u] obtain k p where kp: "0 \<le> k" "filename_pair p" "u = cycle_url pfx k p"
      by blast
    from member [OF v] obtain k' p' where kp': "0 \<le> k'" "filename_pair p'"
      "v = cycle_url pfx k' p'"
      by blast
    from cycle_url_shape [OF pfx kp(1,2)] kp(3) obtain t where
      t: "u = ''https:'' @ t" "CHR '':'' \<notin> set t" "t \<noteq> []" "last t = CHR ''n''"
      by auto
    from cycle_url_shape [OF pfx kp'(1,2)] kp'(3) obtain t' where t': "v = ''https:'' @ t'"
      by auto
    have a: "u \<noteq> []" using t(1) by simp
    have b: "prefix u v \<longrightarrow> u = v"
      using cycle_url_prefix [OF kp(1) kp'(1) kp(2) kp'(2), of pfx] kp(3) kp'(3) by auto
    have c: "\<not> prefix w v \<and> \<not> prefix v w" if "w \<in> set (tails (tl u))" for w
    proof -
      from that obtain x where "w \<noteq> []" "x \<noteq> []" "u = x @ w" by (auto simp: tails_tl_iff)
      then show ?thesis using https_no_overlap [OF t t'] by blast
    qed
    from a b c show ?thesis by (simp add: no_overlap_def list_all_iff)
  qed
  then show ?thesis by (simp add: overlap_free_def list_all_iff)
qed

lemma https_family_distinct:
  assumes N: "2 \<le> N"
  shows "distinct ps \<Longrightarrow> \<forall>p\<in>set ps. filename_pair p \<Longrightarrow> distinct (url_family pfx N ps)"
proof (induction ps)
  case Nil
  then show ?case by (simp add: url_family_def)
next
  case (Cons p ps)
  have fam: "url_family pfx N (p # ps) =
      [cycle_url pfx (N - 2) p, cycle_url pfx (N - 1) p, cycle_url pfx N p] @ url_family pfx N ps"
    by (simp add: url_family_def)
  have p: "filename_pair p" "p \<notin> set ps" using Cons.prems by auto
  have k: "0 \<le> N - 2" "0 \<le> N - 1" "0 \<le> N" using N by auto
  have three: "distinct [cycle_url pfx (N - 2) p, cycle_url pfx (N - 1) p, cycle_url pfx N p]"
    using cycle_url_inj [OF k(1) k(2) p(1) p(1), of pfx] cycle_url_inj [OF k(1) k(3) p(1) p(1), of pfx]
      cycle_url_inj [OF k(2) k(3) p(1) p(1), of pfx]
    by auto
  have fresh: "cycle_url pfx j p \<notin> set (url_family pfx N ps)" if "0 \<le> j" for j
  proof
    assume "cycle_url pfx j p \<in> set (url_family pfx N ps)"
    then obtain q where "q \<in> set ps"
      "cycle_url pfx j p = cycle_url pfx (N - 2) q \<or> cycle_url pfx j p = cycle_url pfx (N - 1) q \<or>
       cycle_url pfx j p = cycle_url pfx N q"
      unfolding url_family_iff by blast
    with k obtain j' where q: "q \<in> set ps" "0 \<le> j'" "cycle_url pfx j p = cycle_url pfx j' q"
      by blast
    moreover have "filename_pair q" using q(1) Cons.prems(2) by simp
    ultimately have "p = q" using cycle_url_inj [OF that q(2) p(1), of q pfx] by simp
    with q(1) p(2) show False by simp
  qed
  have "distinct (url_family pfx N ps)" using Cons by simp
  with three fresh [OF k(1)] fresh [OF k(2)] fresh [OF k(3)] show ?case
    unfolding fam by (simp only: distinct_append) auto
qed

lemma upper_letter: "is_letter c \<Longrightarrow> is_letter (upper_char c)"
  by (auto simp: is_letter_def upper_char_def)

lemma read_entry_pair:
  assumes "read_entry entry = Triple c t cn"
  shows "filename_pair \<lparr>pair.ChainID = c, pair.RewardType = t\<rparr>"
proof -
  from assms obtain m1 m2 m3 where m: "FindStringSubmatch (DirEntry.Name entry) = Some (m1, m2, m3)"
    "c = m1" "t = ToUpper m2"
    by (auto simp: read_entry_def split: if_splits option.splits sum.splits)
  from FindStringSubmatch_sound [OF m(1)]
  have "m1 \<noteq> []" "list_all is_digit m1" "m2 \<noteq> []" "list_all is_letter m2"
    by (simp_all add: regexp_match_def)
  then show ?thesis
    using m(2,3) upper_letter by (auto simp: filename_pair_def ToUpper_def list_all_iff)
qed

lemma scan_entries_pairs:
  "scan_entries dir entries (cycleNum, pairs) = Inr (N, ps) \<Longrightarrow>
   distinct pairs \<Longrightarrow> \<forall>p\<in>set pairs. filename_pair p \<Longrightarrow>
   distinct ps \<and> (\<forall>p\<in>set ps. filename_pair p)"
proof (induction entries arbitrary: cycleNum pairs)
  case Nil
  then show ?case by simp
next
  case (Cons entry entries)
  show ?case
  proof (cases "read_entry entry")
    case Skip
    with Cons show ?thesis by simp
  next
    case (Fatal err)
    with Cons.prems(1) show ?thesis by simp
  next
    case (Triple c t cn)
    let ?p = "\<lparr>pair.ChainID = c, pair.RewardType = t\<rparr>"
    have d: "distinct (List.insert ?p pairs)" using Cons.prems(2) by simp
    have f: "\<forall>p\<in>set (List.insert ?p pairs). filename_pair p"
      using Cons.prems(3) read_entry_pair [OF Triple] by simp
    from Cons.prems(1) Triple obtain c' where
      "scan_entries dir entries (c', List.insert ?p pairs) = Inr (N, ps)"
      by (auto split: if_splits)
    from Cons.IH [OF this d f] show ?thesis .
  qed
qed

text \<open>
  The default prefix starts with \<open>https:\<close> and has no other colon.  For such a prefix,
  a cycle number of at least 2 and the pairs that the scan of a cycle directory yields,
  visited in any order, the generated URLs are pairwise different and free of overlaps:
  the hypothesis of the theorems on the text transform holds in every run that uses the
  default prefix.
\<close>

theorem discovered_urls_clean:
  "https_prefix default_prefix \<and>
   (scan_entries dir entries (0, []) = Inr (N, ps) \<and> 2 \<le> N \<and> https_prefix pfx \<and>
    distinct visited \<and> set visited = set ps \<longrightarrow> clean_urls pfx N visited)"
proof -
  have a: "https_prefix default_prefix"
    by (simp add: https_prefix_def default_prefix_def)
  have b: "clean_urls pfx N visited"
    if "scan_entries dir entries (0, []) = Inr (N, ps)" "2 \<le> N" "https_prefix pfx"
      "distinct visited" "set visited = set ps"
  proof -
    from scan_entries_pairs [OF that(1)] have "\<forall>p\<in>set ps. filename_pair p" by simp
    then have f: "\<forall>p\<in>set visited. filename_pair p" using that(5) by simp
    from https_family_distinct [OF that(2) that(4) f] https_family_overlap_free [OF that(3) that(2) f]
    show ?thesis by (simp add: clean_urls_def)
  qed
  from a b show ?thesis by blast
qed

theorem discovered_urls_clean_witness:
  "clean_urls default_prefix 5
     [\<lparr>pair.ChainID = ''56'', pair.RewardType = ''LM''\<rparr>, \<lparr>pair.ChainID = ''1'', pair.RewardType = ''EG''\<rparr>]"
proof -
  let ?entries = "[\<lparr>DirEntry.Name = ''1_eg_5.json'', IsDir = False\<rparr>,
                   \<lparr>DirEntry.Name = ''56_lm_5.json'', IsDir = False\<rparr>]"
  let ?ps = "[\<lparr>pair.ChainID = ''56'', pair.RewardType = ''LM''\<rparr>,
              \<lparr>pair.ChainID = ''1'', pair.RewardType = ''EG''\<rparr>]"
  have s: "scan_entries ''cycle-5'' ?entries (0, []) = Inr (5, ?ps)"
    by code_simp
  have d: "distinct ?ps" "set ?ps = set ?ps" "(2::int) \<le> 5"
    by simp_all
  from discovered_urls_clean [where dir = "''cycle-5''" and entries = ?entries and N = 5
      and ps = ?ps and pfx = default_prefix and visited = ?ps] s d
  show ?thesis by blast
qed

end
